theory Spec2Isabelle
  imports Complex_Main "HOL-Library.Sublist"
begin

section \<open>Data model (types.ts)\<close>

text \<open>
  JavaScript numbers are modelled as real numbers: sums, products, maxima and comparisons
  are exact, and NaN and the infinities do not occur. An optional field \<open>f?: T\<close> is a
  \<open>T option\<close>, with \<open>None\<close> for \<open>undefined\<close>. So a number field of this model holds a
  finite number or is undefined. The values NaN and \<open>null\<close>, which a number field can also
  hold at run time, are the subject of the section on run-time values below, where the
  solve controller is modelled over them.

  The interface \<open>TreeNode\<close> is recursive through its \<open>children\<close> array, so its scalar
  fields are the record \<open>NodeAttrs\<close> and the node is the pair of that record with the list
  of children. The fields \<open>id\<close>, \<open>value\<close> and \<open>notes\<close> carry the suffix \<open>_n\<close>.
\<close>

datatype NodeType = DECISION | CHANCE | TERMINAL

record NodeAttrs =
  id_n :: string
  type :: NodeType
  label :: string
  value_n :: "real option"
  probability :: "real option"
  collapsed :: "bool option"
  calculatedValue :: "real option"
  isOptimal :: "bool option"
  notes_n :: "string option"

datatype TreeNode = TreeNode (attrs: NodeAttrs) (children: "TreeNode list")

text \<open>The operator \<open>a ?? b\<close>.\<close>

definition nullish :: "'a option \<Rightarrow> 'a \<Rightarrow> 'a" where
  "nullish a b = (case a of None \<Rightarrow> b | Some v \<Rightarrow> v)"

text \<open>\<open>{ ...node, calculatedValue: v }\<close> and \<open>{ ...node, isOptimal: b }\<close>.\<close>

definition withCalculatedValue :: "real option \<Rightarrow> TreeNode \<Rightarrow> TreeNode" where
  "withCalculatedValue v node = TreeNode ((attrs node)\<lparr>calculatedValue := v\<rparr>) (children node)"

definition withIsOptimal :: "bool option \<Rightarrow> TreeNode \<Rightarrow> TreeNode" where
  "withIsOptimal b node = TreeNode ((attrs node)\<lparr>isOptimal := b\<rparr>) (children node)"

section \<open>Tree utilities (utils/treeUtils.ts)\<close>

text \<open>
  \<open>flattenTreePostOrder\<close>: the flattened lists of the children, in order, then the node.
\<close>

fun flattenTreePostOrder :: "TreeNode \<Rightarrow> TreeNode list" where
  "flattenTreePostOrder (TreeNode a cs) = concat (map flattenTreePostOrder cs) @ [TreeNode a cs]"

text \<open>
  \<open>Math.max(x, ...xs)\<close> with at least one argument. \<open>calculateNodeEMV\<close> calls it only behind
  the guard \<open>node.children.length === 0\<close>, so the empty call never happens.
\<close>

definition Math_max :: "real \<Rightarrow> real list \<Rightarrow> real" where
  "Math_max x xs = fold max xs x"

text \<open>
  \<open>calculateNodeEMV\<close>. \<open>node.value || 0\<close> is the value, or 0 when it is undefined (or 0).
  The reduction of a Chance node runs from the left, starting at 0.
\<close>

definition calculateNodeEMV :: "TreeNode \<Rightarrow> real" where
  "calculateNodeEMV node =
     (if type (attrs node) = TERMINAL then
        (case value_n (attrs node) of None \<Rightarrow> 0 | Some v \<Rightarrow> v)
      else case children node of
        [] \<Rightarrow> 0
      | c # cs \<Rightarrow>
         (if type (attrs node) = DECISION then
            Math_max (nullish (calculatedValue (attrs c)) 0)
              (map (\<lambda>c. nullish (calculatedValue (attrs c)) 0) cs)
          else if type (attrs node) = CHANCE then
            foldl (\<lambda>sum child. sum + nullish (calculatedValue (attrs child)) 0
                                    * nullish (probability (attrs child)) 0)
              0 (children node)
          else 0))"

text \<open>
  \<open>markOptimalPath\<close>: a Terminal node and a node with no children are returned as they
  are; otherwise the children are processed first, and a Decision node with a defined
  calculatedValue then flags each child.
\<close>

fun markOptimalPath :: "TreeNode \<Rightarrow> TreeNode" where
  "markOptimalPath (TreeNode a cs) =
     (if type a = TERMINAL \<or> cs = [] then TreeNode a cs
      else
        let cs' = map markOptimalPath cs in
        (case calculatedValue a of
           Some maxVal \<Rightarrow>
             (if type a = DECISION then
                TreeNode a
                  (map (\<lambda>child.
                          withIsOptimal
                            (Some (\<bar>nullish (calculatedValue (attrs child)) 0 - maxVal\<bar> < 0.0001))
                            child)
                     cs')
              else TreeNode a cs')
         | None \<Rightarrow> TreeNode a cs'))"

text \<open>
  \<open>findNode\<close>: depth-first search, the first match wins.
\<close>

fun findNode :: "TreeNode \<Rightarrow> string \<Rightarrow> TreeNode option"
  and findNodeIn :: "TreeNode list \<Rightarrow> string \<Rightarrow> TreeNode option" where
  "findNode (TreeNode a cs) i = (if id_n a = i then Some (TreeNode a cs) else findNodeIn cs i)"
| "findNodeIn [] i = None"
| "findNodeIn (child # cs) i =
     (case findNode child i of Some found \<Rightarrow> Some found | None \<Rightarrow> findNodeIn cs i)"

text \<open>The three default labels of a new node, as the bytes of their UTF-8 encoding.\<close>

definition label_TERMINAL :: string where
  "label_TERMINAL = [CHR 0xE7, CHR 0xBB, CHR 0x93, CHR 0xE6, CHR 0x9E, CHR 0x9C]"

definition label_CHANCE :: string where
  "label_CHANCE =
     [CHR 0xE4, CHR 0xB8, CHR 0x8D, CHR 0xE7, CHR 0xA1, CHR 0xAE, CHR 0xE5, CHR 0xAE, CHR 0x9A,
      CHR 0xE4, CHR 0xBA, CHR 0x8B, CHR 0xE4, CHR 0xBB, CHR 0xB6]"

definition label_DECISION :: string where
  "label_DECISION = [CHR 0xE5, CHR 0x86, CHR 0xB3, CHR 0xE7, CHR 0xAD, CHR 0x96]"

text \<open>
  \<open>addNodeToTree\<close>. Every call builds its own \<open>newNode\<close> with a call of \<open>generateId()\<close>,
  which draws from \<open>Math.random\<close>; the parameter \<open>gen\<close> gives the id drawn by the call made at
  each position of the tree (the position is the list of child indices from the root).
  There is no test of the parent's type.
\<close>

definition newNode :: "string \<Rightarrow> NodeType \<Rightarrow> TreeNode" where
  "newNode i ty =
     TreeNode
       \<lparr>id_n = i, type = ty,
        label = (if ty = TERMINAL then label_TERMINAL
                 else if ty = CHANCE then label_CHANCE else label_DECISION),
        value_n = Some 0, probability = Some 0.5,
        collapsed = None, calculatedValue = None, isOptimal = None, notes_n = None\<rparr> []"

fun addNodeToTree :: "(nat list \<Rightarrow> string) \<Rightarrow> TreeNode \<Rightarrow> string \<Rightarrow> NodeType \<Rightarrow> TreeNode"
  and addNodeToChildren ::
    "(nat list \<Rightarrow> string) \<Rightarrow> nat \<Rightarrow> TreeNode list \<Rightarrow> string \<Rightarrow> NodeType \<Rightarrow> TreeNode list" where
  "addNodeToTree gen (TreeNode a cs) parentId ty =
     (if id_n a = parentId then TreeNode a (cs @ [newNode (gen []) ty])
      else TreeNode a (addNodeToChildren gen 0 cs parentId ty))"
| "addNodeToChildren gen k [] parentId ty = []"
| "addNodeToChildren gen k (child # cs) parentId ty =
     addNodeToTree (\<lambda>p. gen (k # p)) child parentId ty
       # addNodeToChildren gen (Suc k) cs parentId ty"

section \<open>Object references into a tree\<close>

text \<open>
  The automatic replay works on \<open>workingRoot\<close>, a fresh deep copy of the tree
  (\<open>JSON.parse(JSON.stringify(root))\<close>), and mutates its nodes in place through the
  references held in \<open>nodesInOrder\<close>. A reference to a node of that copy is modelled by the
  node's position, and a field assignment through the reference by an update of the tree
  at that position. On the trees of this model, whose number fields hold finite numbers
  or are undefined, the copy has the fields of the original, so the copy of a tree is
  that tree (lemma \<open>JSON_copy_rep\<close> below).
\<close>

type_synonym path = "nat list"

fun nodeAt :: "TreeNode \<Rightarrow> path \<Rightarrow> TreeNode option" where
  "nodeAt t [] = Some t"
| "nodeAt t (i # p) = (if i < length (children t) then nodeAt (children t ! i) p else None)"

fun updateAt :: "path \<Rightarrow> (TreeNode \<Rightarrow> TreeNode) \<Rightarrow> TreeNode \<Rightarrow> TreeNode" where
  "updateAt [] f t = f t"
| "updateAt (i # p) f t =
     (if i < length (children t)
      then TreeNode (attrs t) ((children t)[i := updateAt p f (children t ! i)])
      else t)"

text \<open>
  The references returned by \<open>flattenTreePostOrder(workingRoot)\<close>: the positions of the
  nodes, in the order of \<open>flattenTreePostOrder\<close> (lemma \<open>flattenPaths_nodes\<close> below).
\<close>

fun flattenPaths :: "TreeNode \<Rightarrow> path list"
  and flattenPathsFrom :: "nat \<Rightarrow> TreeNode list \<Rightarrow> path list" where
  "flattenPaths (TreeNode a cs) = flattenPathsFrom 0 cs @ [[]]"
| "flattenPathsFrom k [] = []"
| "flattenPathsFrom k (c # cs) = map ((#) k) (flattenPaths c) @ flattenPathsFrom (Suc k) cs"

section \<open>The application state and the solve controller\<close>

text \<open>
  \<open>calculationMode\<close> is one of \<open>'edit'\<close>, \<open>'step'\<close>, \<open>'auto'\<close>. A log entry carries the label and
  the type of the node, the formula and the result; its \<open>id\<close> (from \<open>Math.random\<close>) and its
  \<open>timestamp\<close> (from \<open>Date.now\<close>) are left out. \<open>getCalculationFormula\<close> prints numbers
  (\<open>toFixed(2)\<close> and template strings); it is the parameter \<open>fmt\<close> of the controller.

  Of the state of the component \<open>App\<close> the tree, the selected id, the mode and the log are
  modelled. A handler is one transition of that state: the functional updates
  \<open>setRoot(prev => ...)\<close> and \<open>setLogs(prev => ...)\<close> that it issues are applied in order. The
  \<open>AbortController\<close> by which a later request or a reset stops a replay in flight is
  modelled on the side of the replay alone, by the parameter \<open>cancel\<close> below.
\<close>

datatype CalculationMode = Edit | Step | Auto

record CalculationLog =
  nodeLabel :: string
  nodeType :: NodeType
  formula :: string
  result :: real

record AppState =
  root :: TreeNode
  selectedNodeId :: "string option"
  calculationMode :: CalculationMode
  logs :: "CalculationLog list"

text \<open>\<open>resetCalculation\<close> and its local \<open>clearValues\<close>, which clears every node.\<close>

fun clearValues :: "TreeNode \<Rightarrow> TreeNode" where
  "clearValues (TreeNode a cs) =
     TreeNode (a\<lparr>calculatedValue := None, isOptimal := None\<rparr>) (map clearValues cs)"

definition resetCalculation :: "AppState \<Rightarrow> AppState" where
  "resetCalculation st =
     st\<lparr>calculationMode := Edit, logs := [], root := clearValues (root st)\<rparr>"

text \<open>\<open>handleAddNode\<close>: outside the edit mode the calculation is reset first.\<close>

definition handleAddNode :: "(nat list \<Rightarrow> string) \<Rightarrow> string \<Rightarrow> NodeType \<Rightarrow> AppState \<Rightarrow> AppState" where
  "handleAddNode gen parentId ty st =
     (let st1 = (if calculationMode st \<noteq> Edit then resetCalculation st else st)
      in st1\<lparr>root := addNodeToTree gen (root st1) parentId ty\<rparr>)"

text \<open>
  The panel \<open>Controls\<close> shows the selected node \<open>findNode(root, selectedNodeId)\<close>. Its three
  add-child buttons, which call \<open>onAddNode(selectedNode.id, type)\<close>, are rendered only when
  \<open>selectedNode.type !== NodeType.TERMINAL\<close>; with no selected node the panel is empty.
  \<open>Controls_addChild\<close> is a click on the button of type \<open>ty\<close>, and changes nothing when that
  button is not there.
\<close>

definition Controls_addChild :: "(nat list \<Rightarrow> string) \<Rightarrow> NodeType \<Rightarrow> AppState \<Rightarrow> AppState" where
  "Controls_addChild gen ty st =
     (case selectedNodeId st of
        None \<Rightarrow> st
      | Some sel \<Rightarrow>
         (case findNode (root st) sel of
            None \<Rightarrow> st
          | Some selectedNode \<Rightarrow>
             (if type (attrs selectedNode) \<noteq> TERMINAL
              then handleAddNode gen (id_n (attrs selectedNode)) ty st
              else st)))"

subsection \<open>Manual stepping: \<open>handleSolve(true)\<close>\<close>

text \<open>
  \<open>stepCalculate\<close> reads and writes the flag \<open>foundNext\<close> and appends to the log; both are
  threaded through the recursion, the children being visited from left to right.
\<close>

fun stepCalculate ::
    "(TreeNode \<Rightarrow> string) \<Rightarrow> TreeNode \<Rightarrow> bool \<times> CalculationLog list
       \<Rightarrow> TreeNode \<times> bool \<times> CalculationLog list"
  and stepCalculateChildren ::
    "(TreeNode \<Rightarrow> string) \<Rightarrow> TreeNode list \<Rightarrow> bool \<times> CalculationLog list
       \<Rightarrow> TreeNode list \<times> bool \<times> CalculationLog list" where
  "stepCalculate fmt (TreeNode a cs) s =
     (if calculatedValue a \<noteq> None then (TreeNode a cs, s)
      else if type a = TERMINAL then (TreeNode (a\<lparr>calculatedValue := value_n a\<rparr>) cs, s)
      else
        (case stepCalculateChildren fmt cs s of
           (children', foundNext, lg) \<Rightarrow>
             (if list_all (\<lambda>c. calculatedValue (attrs c) \<noteq> None) children' \<and> \<not> foundNext
              then
                let nodeWithChildren = TreeNode a children';
                    val = calculateNodeEMV nodeWithChildren;
                    formula = fmt nodeWithChildren
                in (withCalculatedValue (Some val) nodeWithChildren, True,
                    lg @ [\<lparr>nodeLabel = label a, nodeType = type a,
                            formula = formula, result = val\<rparr>])
              else (TreeNode a children', foundNext, lg))))"
| "stepCalculateChildren fmt [] s = ([], s)"
| "stepCalculateChildren fmt (c # cs) s =
     (case stepCalculate fmt c s of
        (c', s') \<Rightarrow>
          (case stepCalculateChildren fmt cs s' of (cs', s'') \<Rightarrow> (c' # cs', s'')))"

definition handleSolveStep :: "(TreeNode \<Rightarrow> string) \<Rightarrow> AppState \<Rightarrow> AppState" where
  "handleSolveStep fmt st =
     (case stepCalculate fmt (root st) (False, logs st) of
        (nextRoot, foundNext, lg) \<Rightarrow>
          (if foundNext
           then st\<lparr>calculationMode := Step, logs := lg, root := nextRoot\<rparr>
           else st\<lparr>calculationMode := Auto, logs := lg, root := markOptimalPath nextRoot\<rparr>))"

subsection \<open>Automatic replay: \<open>handleSolve(false)\<close>\<close>

text \<open>
  The local \<open>clearValues\<close> of the replay leaves Terminal nodes as they are.
\<close>

fun clearValuesSolve :: "TreeNode \<Rightarrow> TreeNode" where
  "clearValuesSolve (TreeNode a cs) =
     TreeNode (if type a \<noteq> TERMINAL then a\<lparr>calculatedValue := None, isOptimal := None\<rparr> else a)
       (map clearValuesSolve cs)"

text \<open>
  The state of a replay: the published application state, the private \<open>workingRoot\<close>, the
  number of pacing delays (\<open>await\<close> of the 2 second timer) met so far, and whether the
  abort signal has been seen. JavaScript runs the handler without interruption between
  two \<open>await\<close>s, so the signal can only be raised during a pacing delay: \<open>cancel = Some k\<close>
  says that it is raised during delay number \<open>k\<close> (counted from 0), \<open>None\<close> that it is
  never raised.
\<close>

record Replay =
  app :: AppState
  workingRoot :: TreeNode
  delays :: nat
  aborted :: bool

text \<open>
  The start of the replay. \<open>workingRoot0\<close> is \<open>JSON.parse(JSON.stringify(root))\<close>, and the
  tree published after the reset is such a copy of the working tree. On the number fields
  of this model the copy is the identity; \<open>solveInit_js\<close> below has the copy written out
  for the run-time values, and lemma \<open>solveInit_rep\<close> relates the two.
\<close>

definition solveInit :: "AppState \<Rightarrow> Replay" where
  "solveInit st =
     (let st1 = st\<lparr>calculationMode := Step\<rparr>;
          workingRoot0 = root st
      in if calculationMode st = Edit \<or> calculationMode st = Auto
         then \<lparr>app = st1\<lparr>logs := [], root := clearValuesSolve workingRoot0\<rparr>,
               workingRoot = clearValuesSolve workingRoot0, delays = 0, aborted = False\<rparr>
         else \<lparr>app = st1, workingRoot = workingRoot0, delays = 0, aborted = False\<rparr>)"

text \<open>
  One turn of the loop \<open>for (const node of nodesInOrder)\<close>, for the node at position \<open>p\<close> of
  the working tree. The positions come from \<open>flattenPaths\<close> of that tree and the loop changes
  no \<open>children\<close> array, so the node is there; the branch \<open>None\<close> is never taken. The formula
  is computed after the assignment of the value, as in the source.
\<close>

definition solveNode ::
    "(TreeNode \<Rightarrow> string) \<Rightarrow> nat option \<Rightarrow> path \<Rightarrow> Replay \<Rightarrow> Replay" where
  "solveNode fmt cancel p r =
     (if aborted r then r
      else case nodeAt (workingRoot r) p of
        None \<Rightarrow> r
      | Some node \<Rightarrow>
         (if type (attrs node) = TERMINAL then
            r\<lparr>workingRoot :=
                 updateAt p (withCalculatedValue (value_n (attrs node))) (workingRoot r)\<rparr>
          else if calculatedValue (attrs node) \<noteq> None then r
          else if cancel = Some (delays r) then r\<lparr>delays := Suc (delays r), aborted := True\<rparr>
          else
            let val = calculateNodeEMV node;
                workingRoot' = updateAt p (withCalculatedValue (Some val)) (workingRoot r);
                newLog = \<lparr>nodeLabel = label (attrs node), nodeType = type (attrs node),
                          formula = fmt (withCalculatedValue (Some val) node), result = val\<rparr>
            in r\<lparr>app := (app r)\<lparr>logs := logs (app r) @ [newLog], root := workingRoot'\<rparr>,
                 workingRoot := workingRoot',
                 delays := Suc (delays r)\<rparr>))"

definition solveLoop :: "(TreeNode \<Rightarrow> string) \<Rightarrow> nat option \<Rightarrow> Replay \<Rightarrow> Replay" where
  "solveLoop fmt cancel r = fold (solveNode fmt cancel) (flattenPaths (workingRoot r)) r"

definition solveFinish :: "Replay \<Rightarrow> AppState" where
  "solveFinish r =
     (if aborted r then app r
      else (app r)\<lparr>root := markOptimalPath (workingRoot r), calculationMode := Auto\<rparr>)"

definition handleSolveAuto :: "(TreeNode \<Rightarrow> string) \<Rightarrow> nat option \<Rightarrow> AppState \<Rightarrow> AppState" where
  "handleSolveAuto fmt cancel st = solveFinish (solveLoop fmt cancel (solveInit st))"

definition handleSolve ::
    "(TreeNode \<Rightarrow> string) \<Rightarrow> nat option \<Rightarrow> bool \<Rightarrow> AppState \<Rightarrow> AppState" where
  "handleSolve fmt cancel stepByStep st =
     (if stepByStep then handleSolveStep fmt st else handleSolveAuto fmt cancel st)"

section \<open>Layout (components/TreeVisualizer.tsx)\<close>

text \<open>
  \<open>calculateLayout\<close> reads and advances the counter \<open>nextY\<close>, which is threaded through
  the recursion. The fields of \<open>LayoutNode\<close> carry the suffix \<open>_l\<close>.
\<close>

datatype LayoutNode =
  LayoutNode (data_l: TreeNode) (x_l: real) (y_l: real) (children_l: "LayoutNode list")

definition HORIZONTAL_SPACING :: real where "HORIZONTAL_SPACING = 280"

definition VERTICAL_SPACING :: real where "VERTICAL_SPACING = 100"

fun calculateLayout :: "TreeNode \<Rightarrow> nat \<Rightarrow> real \<Rightarrow> LayoutNode \<times> real"
  and calculateLayoutChildren :: "TreeNode list \<Rightarrow> nat \<Rightarrow> real \<Rightarrow> LayoutNode list \<times> real" where
  "calculateLayout (TreeNode a cs) depth nextY =
     (if length cs = 0 then
        (LayoutNode (TreeNode a cs) (real depth * HORIZONTAL_SPACING) nextY [],
         nextY + VERTICAL_SPACING)
      else
        (case calculateLayoutChildren cs (depth + 1) nextY of
           (childrenLayouts, nextY') \<Rightarrow>
             let firstChildY = y_l (childrenLayouts ! 0);
                 lastChildY = y_l (childrenLayouts ! (length childrenLayouts - 1));
                 y = (firstChildY + lastChildY) / 2
             in (LayoutNode (TreeNode a cs) (real depth * HORIZONTAL_SPACING) y childrenLayouts,
                 nextY')))"
| "calculateLayoutChildren [] depth nextY = ([], nextY)"
| "calculateLayoutChildren (child # cs) depth nextY =
     (case calculateLayout child depth nextY of
        (l, nextY') \<Rightarrow>
          (case calculateLayoutChildren cs depth nextY' of
             (ls, nextY'') \<Rightarrow> (l # ls, nextY'')))"

definition layoutTree :: "TreeNode \<Rightarrow> LayoutNode" where
  "layoutTree data = fst (calculateLayout data 0 0)"

section \<open>Well-formed trees and example inputs\<close>

text \<open>
  The invariant of the data model that Terminal nodes have no children.
\<close>

fun terminalsAreLeaves :: "TreeNode \<Rightarrow> bool" where
  "terminalsAreLeaves (TreeNode a cs) =
     ((if type a = TERMINAL then cs = [] else True) \<and> list_all terminalsAreLeaves cs)"

text \<open>Example trees and states, used to run the definitions on concrete inputs.\<close>

definition mkNode ::
    "string \<Rightarrow> NodeType \<Rightarrow> real option \<Rightarrow> real option \<Rightarrow> TreeNode list \<Rightarrow> TreeNode" where
  "mkNode i ty v pr cs =
     TreeNode \<lparr>id_n = i, type = ty, label = i, value_n = v, probability = pr,
               collapsed = None, calculatedValue = None, isOptimal = None, notes_n = None\<rparr> cs"

definition editState :: "TreeNode \<Rightarrow> AppState" where
  "editState t = \<lparr>root = t, selectedNodeId = None, calculationMode = Edit, logs = []\<rparr>"

definition noFormula :: "TreeNode \<Rightarrow> string" where
  "noFormula node = []"

text \<open>A Decision root with one Terminal child of value 5.\<close>

definition oneLeaf :: TreeNode where
  "oneLeaf =
     mkNode ''root'' DECISION (Some 0) None [mkNode ''t'' TERMINAL (Some 5) (Some 0.5) []]"

text \<open>Scenario A of the specification.\<close>

definition scenarioA :: TreeNode where
  "scenarioA =
     mkNode ''root'' DECISION (Some 0) None
       [mkNode ''A'' CHANCE (Some 0) None
          [mkNode ''a1'' TERMINAL (Some 100) (Some 0.5) [],
           mkNode ''a2'' TERMINAL (Some 0) (Some 0.5) []],
        mkNode ''B'' CHANCE (Some 0) None
          [mkNode ''b1'' TERMINAL (Some 40) (Some 1) []]]"

text \<open>The invariant of the data model that all ids of a tree are different.\<close>

definition idsDistinct :: "TreeNode \<Rightarrow> bool" where
  "idsDistinct t = distinct (map (\<lambda>n. id_n (attrs n)) (flattenTreePostOrder t))"

text \<open>
  An id supply that gives every call the id \<open>new\<close>, and the state in which the node with
  the given id is selected in the panel.
\<close>

definition newIds :: "nat list \<Rightarrow> string" where
  "newIds p = ''new''"


definition selecting :: "string \<Rightarrow> TreeNode \<Rightarrow> AppState" where
  "selecting i t = \<lparr>root = t, selectedNodeId = Some i, calculationMode = Edit, logs = []\<rparr>"

text \<open>
  Positions in a layout, and the leaves of a layout from left to right (depth first).
\<close>

fun layoutAt :: "LayoutNode \<Rightarrow> path \<Rightarrow> LayoutNode option" where
  "layoutAt l [] = Some l"
| "layoutAt l (i # p) = (if i < length (children_l l) then layoutAt (children_l l ! i) p else None)"

fun leavesLayout :: "LayoutNode \<Rightarrow> LayoutNode list" where
  "leavesLayout (LayoutNode d x y ls) =
     (if ls = [] then [LayoutNode d x y ls] else concat (map leavesLayout ls))"

text \<open>
  What \<open>markOptimalPath\<close> establishes at a node: a Decision node with a calculatedValue
  has every child flagged by the comparison with that value.
\<close>

definition flagged :: "TreeNode \<Rightarrow> bool" where
  "flagged d \<longleftrightarrow>
     (type (attrs d) = DECISION \<longrightarrow>
       (\<forall>v. calculatedValue (attrs d) = Some v \<longrightarrow>
         (\<forall>c \<in> set (children d).
            isOptimal (attrs c) = Some (\<bar>nullish (calculatedValue (attrs c)) 0 - v\<bar> < 0.0001))))"

text \<open>Scenario A with the values of a completed replay, before the marking.\<close>

definition evaluatedA :: TreeNode where
  "evaluatedA = workingRoot (solveLoop noFormula None (solveInit (editState scenarioA)))"

section \<open>Specification functions for the replay loop\<close>

text \<open>
  \<open>evaluate\<close> is the working tree after a loop that is not cancelled, and \<open>evaluateLog\<close>
  the log entries the loop appends (lemma \<open>solveLoop_complete\<close> below): the children
  first, from left to right, then the node; a Terminal node takes its value, a node that
  already has a calculatedValue is skipped, any other node is computed and logged.
\<close>

fun evaluate :: "TreeNode \<Rightarrow> TreeNode" where
  "evaluate (TreeNode a cs) =
     (if type a = TERMINAL then TreeNode (a\<lparr>calculatedValue := value_n a\<rparr>) (map evaluate cs)
      else if calculatedValue a \<noteq> None then TreeNode a (map evaluate cs)
      else TreeNode (a\<lparr>calculatedValue := Some (calculateNodeEMV (TreeNode a (map evaluate cs)))\<rparr>)
             (map evaluate cs))"

fun evaluateLog :: "(TreeNode \<Rightarrow> string) \<Rightarrow> TreeNode \<Rightarrow> CalculationLog list" where
  "evaluateLog fmt (TreeNode a cs) =
     concat (map (evaluateLog fmt) cs)
     @ (if type a \<noteq> TERMINAL \<and> calculatedValue a = None
        then [\<lparr>nodeLabel = label a, nodeType = type a,
               formula = fmt (evaluate (TreeNode a cs)),
               result = calculateNodeEMV (TreeNode a (map evaluate cs))\<rparr>]
        else [])"

text \<open>
  A tree with a hole at position \<open>q\<close>: \<open>C x\<close> has \<open>x\<close> at \<open>q\<close>, and an update at \<open>q\<close> acts
  on \<open>x\<close> alone.
\<close>

definition hole :: "path \<Rightarrow> (TreeNode \<Rightarrow> TreeNode) \<Rightarrow> bool" where
  "hole q C \<longleftrightarrow> (\<forall>x. nodeAt (C x) q = Some x) \<and> (\<forall>x f. updateAt q f (C x) = C (f x))"

text \<open>What the turns of the loop for the trees \<open>ts\<close> leave, apart from the trees.\<close>

definition solved :: "(TreeNode \<Rightarrow> string) \<Rightarrow> TreeNode list \<Rightarrow> Replay \<Rightarrow> Replay \<Rightarrow> bool" where
  "solved fmt ts r r' \<longleftrightarrow>
     \<not> aborted r' \<and>
     logs (app r') = logs (app r) @ concat (map (evaluateLog fmt) ts) \<and>
     delays r' = delays r + length (concat (map (evaluateLog fmt) ts)) \<and>
     calculationMode (app r') = calculationMode (app r) \<and>
     selectedNodeId (app r') = selectedNodeId (app r)"

section \<open>Further notions used in the statements and proofs\<close>

text \<open>
  A node that the replay loop has to compute: not Terminal and without calculatedValue.
  \<open>strip\<close> forgets the flag isOptimal, which is all that \<open>markOptimalPath\<close> changes.
  \<open>computed\<close> and \<open>hasOptimalChild\<close> are the properties of a node before and after the
  marking that the optimality of Decision nodes rests on.
\<close>

definition pending :: "TreeNode \<Rightarrow> bool" where
  "pending n \<longleftrightarrow> type (attrs n) \<noteq> TERMINAL \<and> calculatedValue (attrs n) = None"

definition scenarioB :: TreeNode where
  "scenarioB =
     mkNode ''root'' DECISION (Some 0) None
       [mkNode ''A'' CHANCE (Some 0) None
          [mkNode ''a1'' TERMINAL (Some 100) (Some 0.5) [],
           mkNode ''a2'' TERMINAL (Some 0) (Some 0.5) []],
        mkNode ''B'' CHANCE (Some 0) None
          [mkNode ''b1'' TERMINAL (Some 60) (Some 0.5) [],
           mkNode ''b2'' TERMINAL (Some 20) (Some 0.5) []]]"

definition steppedA :: AppState where
  "steppedA = handleSolve noFormula None True (editState scenarioA)"

definition computed :: "TreeNode \<Rightarrow> bool" where
  "computed n \<longleftrightarrow>
     calculatedValue (attrs n) \<noteq> None \<and>
     (type (attrs n) = DECISION \<and> children n \<noteq> [] \<longrightarrow>
        calculatedValue (attrs n)
          = Some (Max (set (map (\<lambda>c. nullish (calculatedValue (attrs c)) 0) (children n)))))"

definition hasOptimalChild :: "TreeNode \<Rightarrow> bool" where
  "hasOptimalChild d \<longleftrightarrow>
     (type (attrs d) = DECISION \<and> children d \<noteq> [] \<longrightarrow>
        (\<exists>v. calculatedValue (attrs d) = Some v \<and>
           (\<exists>c \<in> set (children d).
              calculatedValue (attrs c) = Some v \<and> isOptimal (attrs c) = Some True)))"

definition strip :: "TreeNode \<Rightarrow> NodeAttrs" where
  "strip n = (attrs n)\<lparr>isOptimal := None\<rparr>"

text \<open>A Decision root without children.\<close>

definition loneDecision :: TreeNode where
  "loneDecision = mkNode ''root'' DECISION (Some 0) None []"

section \<open>Specification functions for a manual step\<close>

text \<open>
  \<open>assignTerminals\<close> is what \<open>stepCalculate\<close> does to the nodes it visits apart from solving
  one: it stops at a node with a calculatedValue, gives a Terminal node its value, and
  descends otherwise. \<open>stepFind\<close> is the node that \<open>stepCalculate\<close> solves: its position, and
  the node as \<open>calculateNodeEMV\<close> and the formula see it (\<open>nodeWithChildren\<close>). Lemma
  \<open>stepCalculate_char\<close> below relates them to \<open>stepCalculate\<close>.

  \<open>valuesClosed\<close> is the invariant of the data model that a node has a calculatedValue
  only if all its children have one.
\<close>

fun assignTerminals :: "TreeNode \<Rightarrow> TreeNode" where
  "assignTerminals (TreeNode a cs) =
     (if calculatedValue a \<noteq> None then TreeNode a cs
      else if type a = TERMINAL then TreeNode (a\<lparr>calculatedValue := value_n a\<rparr>) cs
      else TreeNode a (map assignTerminals cs))"

fun stepFind :: "TreeNode \<Rightarrow> (path \<times> TreeNode) option"
  and stepFindIn :: "TreeNode list \<Rightarrow> (nat \<times> path \<times> TreeNode) option" where
  "stepFind (TreeNode a cs) =
     (if calculatedValue a \<noteq> None \<or> type a = TERMINAL then None
      else case stepFindIn cs of
        Some (i, p, n) \<Rightarrow> Some (i # p, n)
      | None \<Rightarrow>
          if list_all (\<lambda>c. calculatedValue (attrs c) \<noteq> None) (map assignTerminals cs)
          then Some ([], TreeNode a (map assignTerminals cs))
          else None)"
| "stepFindIn [] = None"
| "stepFindIn (c # cs) =
     (case stepFind c of
        Some (p, n) \<Rightarrow> Some (0, p, n)
      | None \<Rightarrow> (case stepFindIn cs of Some (i, p, n) \<Rightarrow> Some (Suc i, p, n) | None \<Rightarrow> None))"

fun valuesClosed :: "TreeNode \<Rightarrow> bool" where
  "valuesClosed (TreeNode a cs) =
     ((if calculatedValue a \<noteq> None
       then list_all (\<lambda>c. calculatedValue (attrs c) \<noteq> None) cs else True) \<and>
      list_all valuesClosed cs)"

definition attrsAt :: "TreeNode \<Rightarrow> path \<Rightarrow> NodeAttrs option" where
  "attrsAt t q = map_option attrs (nodeAt t q)"

definition solveAt :: "TreeNode \<Rightarrow> TreeNode" where
  "solveAt n = withCalculatedValue (Some (calculateNodeEMV n)) n"

definition entryOf :: "(TreeNode \<Rightarrow> string) \<Rightarrow> TreeNode \<Rightarrow> CalculationLog" where
  "entryOf fmt n = \<lparr>nodeLabel = label (attrs n), nodeType = type (attrs n),
                    formula = fmt n, result = calculateNodeEMV n\<rparr>"


section \<open>Positions that are logged\<close>

text \<open>
  \<open>iview\<close> is what the order of the log depends on: at each position of a tree the type
  and the label of the node and, for a node that is not Terminal, its calculatedValue.
  \<open>closedP\<close> says that below a node with a calculatedValue every node that is not Terminal
  has one, \<open>leavesP\<close> that only nodes that are not Terminal have children, and \<open>traced\<close>
  that the log \<open>lg\<close> is the list of entries of the nodes at the positions \<open>ps\<close>, none of
  which is equal to or below an earlier one.
\<close>

definition view :: "NodeAttrs \<Rightarrow> NodeType \<times> string \<times> real option" where
  "view a = (type a, label a, if type a = TERMINAL then None else calculatedValue a)"

definition iview :: "TreeNode \<Rightarrow> path \<Rightarrow> (NodeType \<times> string \<times> real option) option" where
  "iview t q = map_option view (attrsAt t q)"

definition pendingAt :: "TreeNode \<Rightarrow> path \<Rightarrow> bool" where
  "pendingAt t q = (case iview t q of Some (ty, l, c) \<Rightarrow> ty \<noteq> TERMINAL \<and> c = None | None \<Rightarrow> False)"

definition entryView :: "CalculationLog \<Rightarrow> (NodeType \<times> string \<times> real option) option" where
  "entryView e = Some (nodeType e, nodeLabel e, Some (result e))"

definition closedP :: "TreeNode \<Rightarrow> bool" where
  "closedP t \<longleftrightarrow>
     (\<forall>q i ty l c y. iview t q = Some (ty, l, Some c) \<longrightarrow> iview t (q @ [i]) = Some y \<longrightarrow>
        fst y \<noteq> TERMINAL \<longrightarrow> snd (snd y) \<noteq> None)"

definition leavesP :: "TreeNode \<Rightarrow> bool" where
  "leavesP t \<longleftrightarrow>
     (\<forall>q i x y. iview t q = Some x \<longrightarrow> iview t (q @ [i]) = Some y \<longrightarrow> fst x \<noteq> TERMINAL)"

definition traced :: "TreeNode \<Rightarrow> CalculationLog list \<Rightarrow> path list \<Rightarrow> bool" where
  "traced t lg ps \<longleftrightarrow>
     map (iview t) ps = map entryView lg \<and>
     (\<forall>e \<in> set lg. nodeType e \<noteq> TERMINAL) \<and>
     sorted_wrt (\<lambda>p q. \<not> prefix p q) ps \<and>
     closedP t \<and> leavesP t"

text \<open>
  A sequence of requests, each a manual step (\<open>True\<close>) or an automatic replay that is not
  cancelled (\<open>False\<close>), and the positions of the nodes that the requests log, in the order
  of the log: a step logs the node that \<open>stepFind\<close> gives, a replay logs the pending nodes
  of its working tree in the order of \<open>flattenPaths\<close>, after emptying the log when it is
  entered from Edit or from Solved.
\<close>

fun runRequests :: "(TreeNode \<Rightarrow> string) \<Rightarrow> bool list \<Rightarrow> AppState \<Rightarrow> AppState" where
  "runRequests fmt [] st = st"
| "runRequests fmt (stepByStep # requests) st =
     runRequests fmt requests (handleSolve fmt None stepByStep st)"

definition requestPositions :: "bool \<Rightarrow> AppState \<Rightarrow> path list \<Rightarrow> path list" where
  "requestPositions stepByStep st ps =
     (if stepByStep then
        (case stepFind (root st) of None \<Rightarrow> ps | Some (p, x) \<Rightarrow> ps @ [p])
      else
        (if calculationMode st = Step then ps else [])
        @ filter (pendingAt (workingRoot (solveInit st))) (flattenPaths (workingRoot (solveInit st))))"

fun loggedPositions ::
    "(TreeNode \<Rightarrow> string) \<Rightarrow> bool list \<Rightarrow> AppState \<Rightarrow> path list \<Rightarrow> path list" where
  "loggedPositions fmt [] st ps = ps"
| "loggedPositions fmt (stepByStep # requests) st ps =
     loggedPositions fmt requests (handleSolve fmt None stepByStep st)
       (requestPositions stepByStep st ps)"

section \<open>Run-time values of number fields\<close>

text \<open>
  In the model above a number field holds a finite number or is undefined. At run time
  it can hold two more values. The panel stores \<open>parseFloat(e.target.value)\<close> in \<open>value\<close> and
  in \<open>probability\<close>, which is NaN once the input has been emptied. And the deep copy
  \<open>JSON.parse(JSON.stringify(root))\<close>, on which the automatic replay works and which it
  publishes, holds \<open>null\<close> wherever the tree holds NaN. A field that is \<open>null\<close> is not
  \<open>undefined\<close>: the test \<open>x !== undefined\<close> holds of it, while \<open>x ?? 0\<close> and \<open>x || 0\<close> are 0.

  This section models the solve controller over these values, with the copy through JSON
  written out. Its definitions carry the suffix \<open>_js\<close> and follow the same source functions
  as the definitions above, line by line. A number is a finite real number or NaN; the
  infinities and rounding are left out, as above. The next section shows that on trees
  whose number fields hold finite numbers or are undefined the two models agree.
\<close>

datatype JsNumber = Num real | NaN

datatype JsValue = Undefined | Null | Number JsNumber

text \<open>
  The operators \<open>a + b\<close>, \<open>a - b\<close>, \<open>a * b\<close>, \<open>Math.max\<close> of two numbers, \<open>Math.abs\<close> and
  \<open>a < b\<close>: NaN is contagious, and a comparison with NaN is false.
\<close>

definition js_add :: "JsNumber \<Rightarrow> JsNumber \<Rightarrow> JsNumber" where
  "js_add a b = (case a of NaN \<Rightarrow> NaN | Num x \<Rightarrow> (case b of NaN \<Rightarrow> NaN | Num y \<Rightarrow> Num (x + y)))"

definition js_sub :: "JsNumber \<Rightarrow> JsNumber \<Rightarrow> JsNumber" where
  "js_sub a b = (case a of NaN \<Rightarrow> NaN | Num x \<Rightarrow> (case b of NaN \<Rightarrow> NaN | Num y \<Rightarrow> Num (x - y)))"

definition js_mul :: "JsNumber \<Rightarrow> JsNumber \<Rightarrow> JsNumber" where
  "js_mul a b = (case a of NaN \<Rightarrow> NaN | Num x \<Rightarrow> (case b of NaN \<Rightarrow> NaN | Num y \<Rightarrow> Num (x * y)))"

definition js_max :: "JsNumber \<Rightarrow> JsNumber \<Rightarrow> JsNumber" where
  "js_max a b = (case a of NaN \<Rightarrow> NaN | Num x \<Rightarrow> (case b of NaN \<Rightarrow> NaN | Num y \<Rightarrow> Num (max x y)))"

definition js_abs :: "JsNumber \<Rightarrow> JsNumber" where
  "js_abs a = (case a of NaN \<Rightarrow> NaN | Num x \<Rightarrow> Num \<bar>x\<bar>)"

definition js_less :: "JsNumber \<Rightarrow> JsNumber \<Rightarrow> bool" where
  "js_less a b = (case a of NaN \<Rightarrow> False | Num x \<Rightarrow> (case b of NaN \<Rightarrow> False | Num y \<Rightarrow> x < y))"

text \<open>
  The conversion \<open>ToNumber\<close> that the arithmetic operators apply to an operand, and the
  operators \<open>v ?? d\<close> and \<open>v || d\<close>: the first gives \<open>d\<close> for \<open>undefined\<close> and \<open>null\<close>, the second
  also for NaN and 0.
\<close>

definition ToNumber :: "JsValue \<Rightarrow> JsNumber" where
  "ToNumber v = (case v of Undefined \<Rightarrow> NaN | Null \<Rightarrow> Num 0 | Number n \<Rightarrow> n)"

definition nullish_js :: "JsValue \<Rightarrow> JsNumber \<Rightarrow> JsNumber" where
  "nullish_js v d = (case v of Undefined \<Rightarrow> d | Null \<Rightarrow> d | Number n \<Rightarrow> n)"

definition or_js :: "JsValue \<Rightarrow> JsNumber \<Rightarrow> JsNumber" where
  "or_js v d = (case v of Number (Num x) \<Rightarrow> if x = 0 then d else Num x | _ \<Rightarrow> d)"

text \<open>
  \<open>Math.max(x, ...xs)\<close> with at least one argument.
\<close>

definition Math_max_js :: "JsNumber \<Rightarrow> JsNumber list \<Rightarrow> JsNumber" where
  "Math_max_js x xs = fold (\<lambda>y m. js_max m y) xs x"

text \<open>
  The interface \<open>TreeNode\<close> with these values in its number fields.
\<close>

record JsAttrs =
  id_js :: string
  type_js :: NodeType
  label_js :: string
  value_js :: JsValue
  probability_js :: JsValue
  collapsed_js :: "bool option"
  calculatedValue_js :: JsValue
  isOptimal_js :: "bool option"
  notes_js :: "string option"

datatype JsNode = JsNode (attrs_js: JsAttrs) (children_js: "JsNode list")

definition withCalculatedValue_js :: "JsValue \<Rightarrow> JsNode \<Rightarrow> JsNode" where
  "withCalculatedValue_js v node =
     JsNode ((attrs_js node)\<lparr>calculatedValue_js := v\<rparr>) (children_js node)"

definition withIsOptimal_js :: "bool option \<Rightarrow> JsNode \<Rightarrow> JsNode" where
  "withIsOptimal_js b node = JsNode ((attrs_js node)\<lparr>isOptimal_js := b\<rparr>) (children_js node)"

fun flattenTreePostOrder_js :: "JsNode \<Rightarrow> JsNode list" where
  "flattenTreePostOrder_js (JsNode a cs) =
     concat (map flattenTreePostOrder_js cs) @ [JsNode a cs]"

text \<open>
  \<open>calculateNodeEMV\<close> and \<open>markOptimalPath\<close>. In \<open>markOptimalPath\<close> the value \<open>maxVal\<close> is
  \<open>newRoot.calculatedValue\<close>, which the guard lets be anything but \<open>undefined\<close>; the
  subtraction converts it.
\<close>

definition calculateNodeEMV_js :: "JsNode \<Rightarrow> JsNumber" where
  "calculateNodeEMV_js node =
     (if type_js (attrs_js node) = TERMINAL then or_js (value_js (attrs_js node)) (Num 0)
      else case children_js node of
        [] \<Rightarrow> Num 0
      | c # cs \<Rightarrow>
         (if type_js (attrs_js node) = DECISION then
            Math_max_js (nullish_js (calculatedValue_js (attrs_js c)) (Num 0))
              (map (\<lambda>c. nullish_js (calculatedValue_js (attrs_js c)) (Num 0)) cs)
          else if type_js (attrs_js node) = CHANCE then
            foldl (\<lambda>sum child.
                     js_add sum
                       (js_mul (nullish_js (calculatedValue_js (attrs_js child)) (Num 0))
                               (nullish_js (probability_js (attrs_js child)) (Num 0))))
              (Num 0) (children_js node)
          else Num 0))"

fun markOptimalPath_js :: "JsNode \<Rightarrow> JsNode" where
  "markOptimalPath_js (JsNode a cs) =
     (if type_js a = TERMINAL \<or> cs = [] then JsNode a cs
      else
        let cs' = map markOptimalPath_js cs in
        (if type_js a = DECISION \<and> calculatedValue_js a \<noteq> Undefined then
           JsNode a
             (map (\<lambda>child.
                     withIsOptimal_js
                       (Some (js_less
                                (js_abs (js_sub (nullish_js (calculatedValue_js (attrs_js child)) (Num 0))
                                                (ToNumber (calculatedValue_js a))))
                                (Num 0.0001)))
                       child)
                cs')
         else JsNode a cs'))"

text \<open>
  \<open>JSON.parse(JSON.stringify(node))\<close>: \<open>JSON.stringify\<close> writes \<open>null\<close> for NaN and leaves out a
  property that is \<open>undefined\<close>; strings, booleans, finite numbers and \<open>null\<close> come back as
  they are.
\<close>

definition JSON_value :: "JsValue \<Rightarrow> JsValue" where
  "JSON_value v = (case v of Number NaN \<Rightarrow> Null | _ \<Rightarrow> v)"

definition JSON_attrs :: "JsAttrs \<Rightarrow> JsAttrs" where
  "JSON_attrs a =
     a\<lparr>value_js := JSON_value (value_js a),
       probability_js := JSON_value (probability_js a),
       calculatedValue_js := JSON_value (calculatedValue_js a)\<rparr>"

fun JSON_copy :: "JsNode \<Rightarrow> JsNode" where
  "JSON_copy (JsNode a cs) = JsNode (JSON_attrs a) (map JSON_copy cs)"

text \<open>
  References into the working tree, as above.
\<close>

fun nodeAt_js :: "JsNode \<Rightarrow> path \<Rightarrow> JsNode option" where
  "nodeAt_js t [] = Some t"
| "nodeAt_js t (i # p) =
     (if i < length (children_js t) then nodeAt_js (children_js t ! i) p else None)"

fun updateAt_js :: "path \<Rightarrow> (JsNode \<Rightarrow> JsNode) \<Rightarrow> JsNode \<Rightarrow> JsNode" where
  "updateAt_js [] f t = f t"
| "updateAt_js (i # p) f t =
     (if i < length (children_js t)
      then JsNode (attrs_js t) ((children_js t)[i := updateAt_js p f (children_js t ! i)])
      else t)"

fun flattenPaths_js :: "JsNode \<Rightarrow> path list"
  and flattenPathsFrom_js :: "nat \<Rightarrow> JsNode list \<Rightarrow> path list" where
  "flattenPaths_js (JsNode a cs) = flattenPathsFrom_js 0 cs @ [[]]"
| "flattenPathsFrom_js k [] = []"
| "flattenPathsFrom_js k (c # cs) =
     map ((#) k) (flattenPaths_js c) @ flattenPathsFrom_js (Suc k) cs"

text \<open>
  The state of \<open>App\<close> and the manual step \<open>handleSolve(true)\<close>, which makes no copy of the
  tree.
\<close>

record CalculationLog_js =
  nodeLabel_js :: string
  nodeType_js :: NodeType
  formula_js :: string
  result_js :: JsNumber

record AppState_js =
  root_js :: JsNode
  selectedNodeId_js :: "string option"
  calculationMode_js :: CalculationMode
  logs_js :: "CalculationLog_js list"

fun stepCalculate_js ::
    "(JsNode \<Rightarrow> string) \<Rightarrow> JsNode \<Rightarrow> bool \<times> CalculationLog_js list
       \<Rightarrow> JsNode \<times> bool \<times> CalculationLog_js list"
  and stepCalculateChildren_js ::
    "(JsNode \<Rightarrow> string) \<Rightarrow> JsNode list \<Rightarrow> bool \<times> CalculationLog_js list
       \<Rightarrow> JsNode list \<times> bool \<times> CalculationLog_js list" where
  "stepCalculate_js fmt (JsNode a cs) s =
     (if calculatedValue_js a \<noteq> Undefined then (JsNode a cs, s)
      else if type_js a = TERMINAL then (JsNode (a\<lparr>calculatedValue_js := value_js a\<rparr>) cs, s)
      else
        (case stepCalculateChildren_js fmt cs s of
           (children', foundNext, lg) \<Rightarrow>
             (if list_all (\<lambda>c. calculatedValue_js (attrs_js c) \<noteq> Undefined) children' \<and> \<not> foundNext
              then
                let nodeWithChildren = JsNode a children';
                    val = calculateNodeEMV_js nodeWithChildren;
                    formula = fmt nodeWithChildren
                in (withCalculatedValue_js (Number val) nodeWithChildren, True,
                    lg @ [\<lparr>nodeLabel_js = label_js a, nodeType_js = type_js a,
                            formula_js = formula, result_js = val\<rparr>])
              else (JsNode a children', foundNext, lg))))"
| "stepCalculateChildren_js fmt [] s = ([], s)"
| "stepCalculateChildren_js fmt (c # cs) s =
     (case stepCalculate_js fmt c s of
        (c', s') \<Rightarrow>
          (case stepCalculateChildren_js fmt cs s' of (cs', s'') \<Rightarrow> (c' # cs', s'')))"

definition handleSolveStep_js :: "(JsNode \<Rightarrow> string) \<Rightarrow> AppState_js \<Rightarrow> AppState_js" where
  "handleSolveStep_js fmt st =
     (case stepCalculate_js fmt (root_js st) (False, logs_js st) of
        (nextRoot, foundNext, lg) \<Rightarrow>
          (if foundNext
           then st\<lparr>calculationMode_js := Step, logs_js := lg, root_js := nextRoot\<rparr>
           else st\<lparr>calculationMode_js := Auto, logs_js := lg,
                   root_js := markOptimalPath_js nextRoot\<rparr>))"

text \<open>
  The automatic replay \<open>handleSolve(false)\<close>. The working tree is the copy of the tree
  through JSON, and every tree that the loop publishes with \<open>setRoot\<close> is such a copy of
  the working tree; the final tree, \<open>markOptimalPath(workingRoot)\<close>, is published as it
  is.
\<close>

fun clearValuesSolve_js :: "JsNode \<Rightarrow> JsNode" where
  "clearValuesSolve_js (JsNode a cs) =
     JsNode (if type_js a \<noteq> TERMINAL
             then a\<lparr>calculatedValue_js := Undefined, isOptimal_js := None\<rparr> else a)
       (map clearValuesSolve_js cs)"

record Replay_js =
  app_js :: AppState_js
  workingRoot_js :: JsNode
  delays_js :: nat
  aborted_js :: bool

definition solveInit_js :: "AppState_js \<Rightarrow> Replay_js" where
  "solveInit_js st =
     (let st1 = st\<lparr>calculationMode_js := Step\<rparr>;
          workingRoot0 = JSON_copy (root_js st)
      in if calculationMode_js st = Edit \<or> calculationMode_js st = Auto
         then \<lparr>app_js = st1\<lparr>logs_js := [],
                             root_js := JSON_copy (clearValuesSolve_js workingRoot0)\<rparr>,
               workingRoot_js = clearValuesSolve_js workingRoot0,
               delays_js = 0, aborted_js = False\<rparr>
         else \<lparr>app_js = st1, workingRoot_js = workingRoot0, delays_js = 0, aborted_js = False\<rparr>)"

definition solveNode_js ::
    "(JsNode \<Rightarrow> string) \<Rightarrow> nat option \<Rightarrow> path \<Rightarrow> Replay_js \<Rightarrow> Replay_js" where
  "solveNode_js fmt cancel p r =
     (if aborted_js r then r
      else case nodeAt_js (workingRoot_js r) p of
        None \<Rightarrow> r
      | Some node \<Rightarrow>
         (if type_js (attrs_js node) = TERMINAL then
            r\<lparr>workingRoot_js :=
                 updateAt_js p (withCalculatedValue_js (value_js (attrs_js node)))
                   (workingRoot_js r)\<rparr>
          else if calculatedValue_js (attrs_js node) \<noteq> Undefined then r
          else if cancel = Some (delays_js r)
          then r\<lparr>delays_js := Suc (delays_js r), aborted_js := True\<rparr>
          else
            let val = calculateNodeEMV_js node;
                workingRoot' =
                  updateAt_js p (withCalculatedValue_js (Number val)) (workingRoot_js r);
                newLog = \<lparr>nodeLabel_js = label_js (attrs_js node),
                          nodeType_js = type_js (attrs_js node),
                          formula_js = fmt (withCalculatedValue_js (Number val) node),
                          result_js = val\<rparr>
            in r\<lparr>app_js := (app_js r)\<lparr>logs_js := logs_js (app_js r) @ [newLog],
                                        root_js := JSON_copy workingRoot'\<rparr>,
                 workingRoot_js := workingRoot',
                 delays_js := Suc (delays_js r)\<rparr>))"

definition solveLoop_js :: "(JsNode \<Rightarrow> string) \<Rightarrow> nat option \<Rightarrow> Replay_js \<Rightarrow> Replay_js" where
  "solveLoop_js fmt cancel r =
     fold (solveNode_js fmt cancel) (flattenPaths_js (workingRoot_js r)) r"

definition solveFinish_js :: "Replay_js \<Rightarrow> AppState_js" where
  "solveFinish_js r =
     (if aborted_js r then app_js r
      else (app_js r)\<lparr>root_js := markOptimalPath_js (workingRoot_js r),
                      calculationMode_js := Auto\<rparr>)"

definition handleSolveAuto_js ::
    "(JsNode \<Rightarrow> string) \<Rightarrow> nat option \<Rightarrow> AppState_js \<Rightarrow> AppState_js" where
  "handleSolveAuto_js fmt cancel st = solveFinish_js (solveLoop_js fmt cancel (solveInit_js st))"

definition handleSolve_js ::
    "(JsNode \<Rightarrow> string) \<Rightarrow> nat option \<Rightarrow> bool \<Rightarrow> AppState_js \<Rightarrow> AppState_js" where
  "handleSolve_js fmt cancel stepByStep st =
     (if stepByStep then handleSolveStep_js fmt st else handleSolveAuto_js fmt cancel st)"

text \<open>
  Terminal nodes without children. A sequence of requests, each a manual step or an
  automatic replay; a replay comes with the pacing delay during which it is cancelled, if
  it is cancelled (the parameter \<open>cancel\<close> of \<open>handleSolve\<close>).
\<close>

fun terminalsAreLeaves_js :: "JsNode \<Rightarrow> bool" where
  "terminalsAreLeaves_js (JsNode a cs) =
     ((if type_js a = TERMINAL then cs = [] else True) \<and> list_all terminalsAreLeaves_js cs)"

fun handleRequests_js ::
    "(JsNode \<Rightarrow> string) \<Rightarrow> (bool \<times> nat option) list \<Rightarrow> AppState_js \<Rightarrow> AppState_js" where
  "handleRequests_js fmt [] st = st"
| "handleRequests_js fmt ((stepByStep, cancel) # requests) st =
     handleRequests_js fmt requests (handleSolve_js fmt cancel stepByStep st)"

section \<open>The model as the run-time program on finite numbers\<close>

text \<open>
  \<open>rep\<close> is the run-time tree of a tree of the model: \<open>Some x\<close> is the number \<open>x\<close>, and
  \<open>None\<close> is \<open>undefined\<close>. The run-time states of the form \<open>rep_state st\<close> are those whose
  number fields hold finite numbers or are undefined. Lemma \<open>handleSolve_rep\<close> below shows
  that on these states \<open>handleSolve_js\<close> does what \<open>handleSolve\<close> does; in particular the copy
  through JSON is the identity there (lemma \<open>JSON_copy_rep\<close>), which is how \<open>solveInit\<close> and
  \<open>solveNode\<close> above take it.
\<close>

definition rep_value :: "real option \<Rightarrow> JsValue" where
  "rep_value v = (case v of None \<Rightarrow> Undefined | Some x \<Rightarrow> Number (Num x))"

definition rep_attrs :: "NodeAttrs \<Rightarrow> JsAttrs" where
  "rep_attrs a =
     \<lparr>id_js = id_n a, type_js = type a, label_js = label a,
      value_js = rep_value (value_n a), probability_js = rep_value (probability a),
      collapsed_js = collapsed a, calculatedValue_js = rep_value (calculatedValue a),
      isOptimal_js = isOptimal a, notes_js = notes_n a\<rparr>"

fun rep :: "TreeNode \<Rightarrow> JsNode" where
  "rep (TreeNode a cs) = JsNode (rep_attrs a) (map rep cs)"

definition rep_log :: "CalculationLog \<Rightarrow> CalculationLog_js" where
  "rep_log e = \<lparr>nodeLabel_js = nodeLabel e, nodeType_js = nodeType e,
                formula_js = formula e, result_js = Num (result e)\<rparr>"

definition rep_state :: "AppState \<Rightarrow> AppState_js" where
  "rep_state st =
     \<lparr>root_js = rep (root st), selectedNodeId_js = selectedNodeId st,
      calculationMode_js = calculationMode st, logs_js = map rep_log (logs st)\<rparr>"

definition rep_replay :: "Replay \<Rightarrow> Replay_js" where
  "rep_replay r =
     \<lparr>app_js = rep_state (app r), workingRoot_js = rep (workingRoot r),
      delays_js = delays r, aborted_js = aborted r\<rparr>"

text \<open>
  Example inputs at run time. \<open>emptiedA\<close> is Scenario A after the value input of its first
  Terminal node has been emptied, and \<open>emptiedLeaf\<close> a Decision root whose only child is
  such a Terminal node.
\<close>

definition mkNode_js ::
    "string \<Rightarrow> NodeType \<Rightarrow> JsValue \<Rightarrow> JsValue \<Rightarrow> JsNode list \<Rightarrow> JsNode" where
  "mkNode_js i ty v pr cs =
     JsNode \<lparr>id_js = i, type_js = ty, label_js = i, value_js = v, probability_js = pr,
             collapsed_js = None, calculatedValue_js = Undefined, isOptimal_js = None,
             notes_js = None\<rparr> cs"

definition editState_js :: "JsNode \<Rightarrow> AppState_js" where
  "editState_js t =
     \<lparr>root_js = t, selectedNodeId_js = None, calculationMode_js = Edit, logs_js = []\<rparr>"

definition noFormula_js :: "JsNode \<Rightarrow> string" where
  "noFormula_js node = []"

definition emptiedA :: JsNode where
  "emptiedA =
     mkNode_js ''root'' DECISION (Number (Num 0)) Undefined
       [mkNode_js ''A'' CHANCE (Number (Num 0)) Undefined
          [mkNode_js ''a1'' TERMINAL (Number NaN) (Number (Num 0.5)) [],
           mkNode_js ''a2'' TERMINAL (Number (Num 0)) (Number (Num 0.5)) []],
        mkNode_js ''B'' CHANCE (Number (Num 0)) Undefined
          [mkNode_js ''b1'' TERMINAL (Number (Num 40)) (Number (Num 1)) []]]"

definition emptiedLeaf :: JsNode where
  "emptiedLeaf =
     mkNode_js ''root'' DECISION (Number (Num 0)) Undefined
       [mkNode_js ''t'' TERMINAL (Number NaN) (Number (Num 0.5)) []]"

text \<open>
  Scenario A and \<open>oneLeaf\<close> after a completed replay, Scenario A and \<open>emptiedA\<close> after one
  manual step, and two sequences of requests: four manual steps, and a replay cancelled
  during its second pacing delay, followed by a manual step and a replay.
\<close>

definition solvedA :: AppState_js where
  "solvedA = handleSolve_js noFormula_js None False (editState_js (rep scenarioA))"

definition solvedLeaf :: AppState_js where
  "solvedLeaf = handleSolve_js noFormula_js None False (editState_js (rep oneLeaf))"

definition steppedA_js :: AppState_js where
  "steppedA_js = handleSolve_js noFormula_js None True (editState_js (rep scenarioA))"

definition steppedEmptiedA :: AppState_js where
  "steppedEmptiedA = handleSolve_js noFormula_js None True (editState_js emptiedA)"

definition fourSteps :: "(bool \<times> nat option) list" where
  "fourSteps = [(True, None), (True, None), (True, None), (True, None)]"

definition cancelledThenResumed :: "(bool \<times> nat option) list" where
  "cancelledThenResumed = [(False, Some 1), (True, None), (False, None)]"

section \<open>Consistent values\<close>

text \<open>
  \<open>sound\<close> is the invariant of the values of a tree that the requests maintain: a
  Terminal node has no children, has a value, and its calculatedValue, if any, is that
  value; any other node that has a calculatedValue has children that all have one, and
  a Decision node with children and a calculatedValue has the maximum of its children's.
  \<open>full\<close> says that every node has a calculatedValue.
\<close>

fun sound :: "TreeNode \<Rightarrow> bool" where
  "sound (TreeNode a cs) =
     (list_all sound cs \<and>
      (if type a = TERMINAL
       then cs = [] \<and> value_n a \<noteq> None \<and>
            (calculatedValue a = None \<or> calculatedValue a = value_n a)
       else calculatedValue a \<noteq> None \<longrightarrow>
              list_all (\<lambda>c. calculatedValue (attrs c) \<noteq> None) cs \<and>
              (type a = DECISION \<and> cs \<noteq> [] \<longrightarrow>
                 calculatedValue a
                   = Some (Max (set (map (\<lambda>c. nullish (calculatedValue (attrs c)) 0) cs))))))"

definition full :: "TreeNode \<Rightarrow> bool" where
  "full t \<longleftrightarrow> (\<forall>n \<in> set (flattenTreePostOrder t). calculatedValue (attrs n) \<noteq> None)"

text \<open>
  What the turns of the replay loop for a subtree \<open>t\<close>, in the context \<open>C\<close>, leave when the
  replay may be cancelled: the published tree is consistent, a replay that has been
  cancelled stays as it is, and one that has not been cancelled has the subtree evaluated.
\<close>

definition settled :: "(TreeNode \<Rightarrow> TreeNode) \<Rightarrow> TreeNode \<Rightarrow> Replay \<Rightarrow> Replay \<Rightarrow> bool" where
  "settled C t r r' \<longleftrightarrow>
     sound (root (app r')) \<and>
     (aborted r \<longrightarrow> r' = r) \<and>
     (\<not> aborted r' \<longrightarrow>
        (\<exists>t'. workingRoot r' = C t' \<and> sound (C t') \<and> full t' \<and>
              (calculatedValue (attrs t) \<noteq> None \<longrightarrow>
                 calculatedValue (attrs t') = calculatedValue (attrs t))))"

text \<open>The sequences of requests of the run-time program, in the model.\<close>

fun handleRequests ::
    "(TreeNode \<Rightarrow> string) \<Rightarrow> (bool \<times> nat option) list \<Rightarrow> AppState \<Rightarrow> AppState" where
  "handleRequests fmt [] st = st"
| "handleRequests fmt ((stepByStep, cancel) # requests) st =
     handleRequests fmt requests (handleSolve fmt cancel stepByStep st)"

section \<open>Basic facts\<close>

lemma Math_max_Max: "Math_max x xs = Max (set (x # xs))"
  unfolding Math_max_def by (rule Max.set_eq_fold [symmetric])

lemma foldl_plus_sum_list:
  "foldl (\<lambda>s c. s + f c) (z::real) cs = z + sum_list (map f cs)"
  by (induction cs arbitrary: z) simp_all

section \<open>The value of a node\<close>


lemmas run_defs =
  handleSolve_def handleSolveAuto_def handleSolveStep_def solveFinish_def solveLoop_def
  solveNode_def solveInit_def withCalculatedValue_def withIsOptimal_def calculateNodeEMV_def
  Math_max_def nullish_def mkNode_def editState_def noFormula_def Let_def

section \<open>The reset at the start of an automatic replay, in the model\<close>

lemma nodeAt_clearValuesSolve:
  "nodeAt (clearValuesSolve t) p = map_option clearValuesSolve (nodeAt t p)"
proof (induction p arbitrary: t)
  case Nil
  show ?case by simp
next
  case (Cons i p)
  show ?case by (cases t) (simp add: Cons.IH)
qed

lemma attrs_clearValuesSolve:
  "attrs (clearValuesSolve n) =
     (if type (attrs n) = TERMINAL then attrs n
      else (attrs n)\<lparr>calculatedValue := None, isOptimal := None\<rparr>)"
  by (cases n) simp

section \<open>Adding a child\<close>

lemma self_in_flatten: "t \<in> set (flattenTreePostOrder t)"
  by (cases t) simp

lemma child_in_flatten:
  "c \<in> set (children t) \<Longrightarrow> n \<in> set (flattenTreePostOrder c) \<Longrightarrow> n \<in> set (flattenTreePostOrder t)"
  by (cases t) auto

lemma findNode_in_flatten:
  "findNode t i = Some n \<Longrightarrow> n \<in> set (flattenTreePostOrder t) \<and> id_n (attrs n) = i"
  "findNodeIn cs i = Some n \<Longrightarrow> \<exists>c \<in> set cs. n \<in> set (flattenTreePostOrder c) \<and> id_n (attrs n) = i"
  by (induction t i and cs i rule: findNode_findNodeIn.induct)
     (auto split: if_splits option.splits)

lemma addNodeToChildren_Nil [simp]:
  "addNodeToChildren gen k cs pid ty = [] \<longleftrightarrow> cs = []"
  by (cases cs) simp_all

lemma terminalsAreLeaves_newNode [simp]: "terminalsAreLeaves (newNode i ty)"
  by (simp add: newNode_def)

lemma addNode_terminalsAreLeaves:
  "terminalsAreLeaves t \<Longrightarrow>
     (\<forall>n \<in> set (flattenTreePostOrder t). id_n (attrs n) = pid \<longrightarrow> type (attrs n) \<noteq> TERMINAL) \<Longrightarrow>
     terminalsAreLeaves (addNodeToTree gen t pid ty)"
  "list_all terminalsAreLeaves cs \<Longrightarrow>
     (\<forall>c \<in> set cs. \<forall>n \<in> set (flattenTreePostOrder c).
         id_n (attrs n) = pid \<longrightarrow> type (attrs n) \<noteq> TERMINAL) \<Longrightarrow>
     list_all terminalsAreLeaves (addNodeToChildren gen k cs pid ty)"
proof (induction gen t pid ty and gen k cs pid ty rule: addNodeToTree_addNodeToChildren.induct)
  case (1 gen a cs parentId ty)
  show ?case
  proof (cases "id_n a = parentId")
    case True
    with "1.prems"(2) have "type a \<noteq> TERMINAL" by auto
    with "1.prems"(1) True show ?thesis by simp
  next
    case False
    from "1.prems" have "list_all terminalsAreLeaves cs" by (simp split: if_splits)
    moreover from "1.prems"(2) have "\<forall>c \<in> set cs. \<forall>n \<in> set (flattenTreePostOrder c).
         id_n (attrs n) = parentId \<longrightarrow> type (attrs n) \<noteq> TERMINAL" by auto
    ultimately have "list_all terminalsAreLeaves (addNodeToChildren gen 0 cs parentId ty)"
      using "1.IH" False by blast
    with "1.prems"(1) False show ?thesis by (simp split: if_splits)
  qed
next
  case (2 gen k parentId ty)
  show ?case by simp
next
  case (3 gen k child cs parentId ty)
  then show ?case by simp
qed

lemma flatten_clearValues:
  "flattenTreePostOrder (clearValues t) = map clearValues (flattenTreePostOrder t)"
  by (induction t) (simp add: map_concat comp_def cong: map_cong)

lemma attrs_clearValues:
  "attrs (clearValues n) = (attrs n)\<lparr>calculatedValue := None, isOptimal := None\<rparr>"
  by (cases n) simp

lemma terminalsAreLeaves_clearValues:
  "terminalsAreLeaves (clearValues t) = terminalsAreLeaves t"
  by (induction t) (auto simp: list_all_iff)

text \<open>
  C4, amended. \<open>addNodeToTree\<close> and \<open>handleAddNode\<close> reject nothing; the rule is kept by the
  panel, which offers the add-child buttons only for a selected node that is not Terminal.
  On a tree with different ids whose Terminal nodes have no children, a click on an
  add-child button leaves a tree whose Terminal nodes have no children; and when the
  selected node is Terminal the click changes nothing.
\<close>

theorem Controls_addChild_keeps_terminals_leaves:
  assumes "terminalsAreLeaves (root st)" and "idsDistinct (root st)"
  shows "terminalsAreLeaves (root (Controls_addChild gen ty st)) \<and>
         (\<forall>sel n. selectedNodeId st = Some sel \<and> findNode (root st) sel = Some n \<and>
                  type (attrs n) = TERMINAL \<longrightarrow> Controls_addChild gen ty st = st)"
proof -
  have second: "\<forall>sel n. selectedNodeId st = Some sel \<and> findNode (root st) sel = Some n \<and>
                  type (attrs n) = TERMINAL \<longrightarrow> Controls_addChild gen ty st = st"
    by (auto simp: Controls_addChild_def)
  have first: "terminalsAreLeaves (root (Controls_addChild gen ty st))"
  proof (cases "selectedNodeId st")
    case None
    with assms(1) show ?thesis by (simp add: Controls_addChild_def)
  next
    case (Some sel)
    show ?thesis
    proof (cases "findNode (root st) sel")
      case None
      with Some assms(1) show ?thesis by (simp add: Controls_addChild_def)
    next
      case (Some n)
      note found = findNode_in_flatten(1) [OF Some]
      show ?thesis
      proof (cases "type (attrs n) = TERMINAL")
        case True
        with Some \<open>selectedNodeId st = Some sel\<close> assms(1) show ?thesis
          by (simp add: Controls_addChild_def)
      next
        case False
        have uniq: "\<forall>m \<in> set (flattenTreePostOrder (root st)).
                      id_n (attrs m) = id_n (attrs n) \<longrightarrow> m = n"
          using assms(2) found unfolding idsDistinct_def
          by (auto simp: distinct_map inj_on_def)
        let ?t = "if calculationMode st \<noteq> Edit then clearValues (root st) else root st"
        have "terminalsAreLeaves ?t"
          using assms(1) by (simp add: terminalsAreLeaves_clearValues)
        moreover have "\<forall>m \<in> set (flattenTreePostOrder ?t).
                         id_n (attrs m) = id_n (attrs n) \<longrightarrow> type (attrs m) \<noteq> TERMINAL"
          using uniq False by (auto simp: flatten_clearValues attrs_clearValues)
        ultimately have "terminalsAreLeaves (addNodeToTree gen ?t (id_n (attrs n)) ty)"
          by (rule addNode_terminalsAreLeaves(1))
        with Some \<open>selectedNodeId st = Some sel\<close> False show ?thesis
          by (auto simp: Controls_addChild_def handleAddNode_def resetCalculation_def Let_def
                split: if_splits)
      qed
    qed
  qed
  from first second show ?thesis by blast
qed

text \<open>
  C4, as stated, fails: \<open>addNodeToTree\<close> with the id of the Terminal child of \<open>oneLeaf\<close>
  appends the new node under that Terminal node, and \<open>handleAddNode\<close> stores that tree.
\<close>

theorem addNodeToTree_under_terminal_counterexample:
  "map_option (type \<circ> attrs) (nodeAt (addNodeToTree newIds oneLeaf ''t'' TERMINAL) [0])
     = Some TERMINAL \<and>
   map_option children (nodeAt (addNodeToTree newIds oneLeaf ''t'' TERMINAL) [0])
     = Some [newNode ''new'' TERMINAL] \<and>
   root (handleAddNode newIds ''t'' TERMINAL (editState oneLeaf))
     = addNodeToTree newIds oneLeaf ''t'' TERMINAL"
  by (simp add: handleAddNode_def oneLeaf_def mkNode_def editState_def newIds_def)

theorem Controls_addChild_keeps_terminals_leaves_witness:
  "terminalsAreLeaves (root (selecting ''root'' oneLeaf)) \<and>
   idsDistinct (root (selecting ''root'' oneLeaf)) \<and>
   terminalsAreLeaves (root (Controls_addChild newIds DECISION (selecting ''root'' oneLeaf))) \<and>
   length (children (root (Controls_addChild newIds DECISION (selecting ''root'' oneLeaf)))) = 2 \<and>
   findNode (root (selecting ''t'' oneLeaf)) ''t'' = Some (mkNode ''t'' TERMINAL (Some 5) (Some 0.5) []) \<and>
   Controls_addChild newIds DECISION (selecting ''t'' oneLeaf) = selecting ''t'' oneLeaf"
proof -
  have h1: "terminalsAreLeaves (root (selecting i oneLeaf))" for i
    by (simp add: selecting_def oneLeaf_def mkNode_def)
  have h2: "idsDistinct (root (selecting i oneLeaf))" for i
    by (simp add: selecting_def oneLeaf_def mkNode_def idsDistinct_def)
  have f: "findNode (root (selecting ''t'' oneLeaf)) ''t'' = Some (mkNode ''t'' TERMINAL (Some 5) (Some 0.5) [])"
    by (simp add: selecting_def oneLeaf_def mkNode_def)
  have ty: "type (attrs (mkNode ''t'' TERMINAL (Some 5) (Some 0.5) [])) = TERMINAL"
    by (simp add: mkNode_def)
  have s: "selectedNodeId (selecting ''t'' oneLeaf) = Some ''t''"
    by (simp add: selecting_def)
  from Controls_addChild_keeps_terminals_leaves
         [OF h1 [of "''root''"] h2 [of "''root''"], of newIds DECISION]
  have a: "terminalsAreLeaves (root (Controls_addChild newIds DECISION (selecting ''root'' oneLeaf)))"
    by blast
  from Controls_addChild_keeps_terminals_leaves
         [OF h1 [of "''t''"] h2 [of "''t''"], of newIds DECISION] s f ty
  have b: "Controls_addChild newIds DECISION (selecting ''t'' oneLeaf) = selecting ''t'' oneLeaf"
    by blast
  have c: "length (children (root (Controls_addChild newIds DECISION (selecting ''root'' oneLeaf)))) = 2"
    by (simp add: Controls_addChild_def handleAddNode_def selecting_def oneLeaf_def mkNode_def)
  from h1 h2 a b c f show ?thesis by blast
qed

section \<open>Layout\<close>

lemma calculateLayoutChildren_length:
  "length (fst (calculateLayoutChildren cs d y)) = length cs"
  by (induction cs arbitrary: y) (simp_all add: case_prod_beta)

lemma calculateLayoutChildren_nth:
  "i < length cs \<Longrightarrow>
     \<exists>y'. fst (calculateLayoutChildren cs d y) ! i = fst (calculateLayout (cs ! i) d y')"
proof (induction cs arbitrary: i y)
  case Nil
  then show ?case by simp
next
  case (Cons c cs)
  show ?case
  proof (cases i)
    case 0
    then show ?thesis by (auto simp: case_prod_beta intro: exI [of _ y])
  next
    case (Suc j)
    with Cons.prems have "j < length cs" by simp
    from Cons.IH [OF this] Suc show ?thesis
      by (simp add: case_prod_beta)
  qed
qed

lemma calculateLayout_root:
  "data_l (fst (calculateLayout t d y)) = t \<and>
   x_l (fst (calculateLayout t d y)) = real d * HORIZONTAL_SPACING \<and>
   children_l (fst (calculateLayout t d y)) = fst (calculateLayoutChildren (children t) (d + 1) y)"
  by (cases t) (simp add: case_prod_beta Let_def)

lemma calculateLayout_root_y:
  "children_l (fst (calculateLayout t d y)) \<noteq> [] \<Longrightarrow>
   y_l (fst (calculateLayout t d y)) =
     (y_l (hd (children_l (fst (calculateLayout t d y))))
      + y_l (last (children_l (fst (calculateLayout t d y))))) / 2"
  by (cases t) (auto simp: case_prod_beta Let_def hd_conv_nth last_conv_nth split: if_splits)

lemma calculateLayoutChildren_data:
  "map data_l (fst (calculateLayoutChildren cs d y)) = cs"
  by (induction cs arbitrary: y) (simp_all add: case_prod_beta calculateLayout_root)

lemma layoutAt_calculateLayout:
  "layoutAt (fst (calculateLayout t d y)) p = Some n \<Longrightarrow>
     nodeAt t p = Some (data_l n) \<and>
     map data_l (children_l n) = children (data_l n) \<and>
     x_l n = real (d + length p) * HORIZONTAL_SPACING \<and>
     (children_l n \<noteq> [] \<longrightarrow>
        y_l n = (y_l (hd (children_l n)) + y_l (last (children_l n))) / 2)"
proof (induction p arbitrary: t d y)
  case Nil
  then have n: "n = fst (calculateLayout t d y)" by simp
  show ?case
    unfolding n using calculateLayout_root_y [of t d y]
    by (simp add: calculateLayout_root calculateLayoutChildren_data)
next
  case (Cons i p)
  from Cons.prems have i: "i < length (children t)"
    by (simp add: calculateLayout_root calculateLayoutChildren_length split: if_splits)
  from calculateLayoutChildren_nth [OF i, of "d + 1" y]
  obtain y' where y': "fst (calculateLayoutChildren (children t) (d + 1) y) ! i
                       = fst (calculateLayout (children t ! i) (d + 1) y')" by blast
  from Cons.prems i y' have "layoutAt (fst (calculateLayout (children t ! i) (d + 1) y')) p = Some n"
    by (simp add: calculateLayout_root calculateLayoutChildren_length)
  from Cons.IH [OF this] i show ?case by simp
qed

lemma layoutAt_defined:
  "nodeAt t p \<noteq> None \<Longrightarrow> layoutAt (fst (calculateLayout t d y)) p \<noteq> None"
proof (induction p arbitrary: t d y)
  case Nil
  show ?case by simp
next
  case (Cons i p)
  from Cons.prems have i: "i < length (children t)" and n: "nodeAt (children t ! i) p \<noteq> None"
    by (simp_all split: if_splits)
  from calculateLayoutChildren_nth [OF i, of "d + 1" y]
  obtain y' where y': "fst (calculateLayoutChildren (children t) (d + 1) y) ! i
                       = fst (calculateLayout (children t ! i) (d + 1) y')" by blast
  from Cons.IH [OF n, of "d + 1" y'] i y' show ?case
    by (simp add: calculateLayout_root calculateLayoutChildren_length)
qed

lemma upt_shift_map:
  "map (\<lambda>k. a + real k * v) [0..<m] @ map (\<lambda>k. (a + real m * v) + real k * v) [0..<n]
     = map (\<lambda>k. a + real k * v) [0..<m + n]"
proof -
  have "map (\<lambda>k. (a + real m * v) + real k * v) [0..<n] = map (\<lambda>k. a + real k * v) [m..<m + n]"
    by (simp add: map_add_upt [symmetric] algebra_simps del: map_add_upt)
      (simp add: list_eq_iff_nth_eq algebra_simps)
  then show ?thesis
    by (simp add: upt_add_eq_append [of 0 m n] del: upt_add_eq_append)
qed

lemma calculateLayout_leaves:
  "map y_l (leavesLayout (fst (calculateLayout t d y)))
     = map (\<lambda>k. y + real k * VERTICAL_SPACING) [0..<length (leavesLayout (fst (calculateLayout t d y)))]
   \<and> snd (calculateLayout t d y)
     = y + real (length (leavesLayout (fst (calculateLayout t d y)))) * VERTICAL_SPACING
   \<and> map data_l (leavesLayout (fst (calculateLayout t d y)))
     = filter (\<lambda>n. children n = []) (flattenTreePostOrder t)"
  "map y_l (concat (map leavesLayout (fst (calculateLayoutChildren cs d y))))
     = map (\<lambda>k. y + real k * VERTICAL_SPACING)
         [0..<length (concat (map leavesLayout (fst (calculateLayoutChildren cs d y))))]
   \<and> snd (calculateLayoutChildren cs d y)
     = y + real (length (concat (map leavesLayout (fst (calculateLayoutChildren cs d y))))) * VERTICAL_SPACING
   \<and> map data_l (concat (map leavesLayout (fst (calculateLayoutChildren cs d y))))
     = filter (\<lambda>n. children n = []) (concat (map flattenTreePostOrder cs))"
proof (induction t d y and cs d y rule: calculateLayout_calculateLayoutChildren.induct)
  case (1 a cs depth nextY)
  show ?case
  proof (cases "cs = []")
    case True
    then show ?thesis by simp
  next
    case False
    then have ne: "fst (calculateLayoutChildren cs (depth + 1) nextY) \<noteq> []"
      using calculateLayoutChildren_length [of cs "depth + 1" nextY] by auto
    from False have "length cs \<noteq> 0" by simp
    from "1.IH" [OF this] False ne show ?thesis
      by (simp add: case_prod_beta Let_def)
  qed
next
  case (2 depth nextY)
  show ?case by simp
next
  case (3 child cs depth nextY)
  obtain l y1 where c: "calculateLayout child depth nextY = (l, y1)" by force
  obtain ls y2 where cs: "calculateLayoutChildren cs depth y1 = (ls, y2)" by force
  from "3.IH"(1) c have l:
    "map y_l (leavesLayout l) = map (\<lambda>k. nextY + real k * VERTICAL_SPACING) [0..<length (leavesLayout l)]"
    "y1 = nextY + real (length (leavesLayout l)) * VERTICAL_SPACING"
    "map data_l (leavesLayout l) = filter (\<lambda>n. children n = []) (flattenTreePostOrder child)"
    by simp_all
  from "3.IH"(2) [OF c [symmetric]] cs have ls:
    "map y_l (concat (map leavesLayout ls))
       = map (\<lambda>k. y1 + real k * VERTICAL_SPACING) [0..<length (concat (map leavesLayout ls))]"
    "y2 = y1 + real (length (concat (map leavesLayout ls))) * VERTICAL_SPACING"
    "map data_l (concat (map leavesLayout ls))
       = filter (\<lambda>n. children n = []) (concat (map flattenTreePostOrder cs))"
    by simp_all
  have "map y_l (leavesLayout l) @ map y_l (concat (map leavesLayout ls))
        = map (\<lambda>k. nextY + real k * VERTICAL_SPACING)
            [0..<length (leavesLayout l) + length (concat (map leavesLayout ls))]"
    unfolding l(1) ls(1) l(2) by (rule upt_shift_map)
  with l ls c cs show ?case
    by (simp add: algebra_simps)
qed

text \<open>
  C8. The layout has a node at every position of the tree, carrying that node of the
  tree. The horizontal coordinate of the node at a position is the depth (the length of
  the position) times \<open>HORIZONTAL_SPACING\<close>; a node with children has as vertical
  coordinate the midpoint of those of its first and its last child; and the leaves, which
  are the childless nodes of the tree from left to right, have the vertical coordinates
  0, \<open>VERTICAL_SPACING\<close>, 2 \<open>VERTICAL_SPACING\<close>, ... in that order.
\<close>

theorem layoutTree_coordinates:
  "(\<forall>n. layoutAt (layoutTree data) p = Some n \<longrightarrow>
      nodeAt data p = Some (data_l n) \<and>
      map data_l (children_l n) = children (data_l n) \<and>
      x_l n = real (length p) * HORIZONTAL_SPACING \<and>
      (children_l n \<noteq> [] \<longrightarrow>
         y_l n = (y_l (hd (children_l n)) + y_l (last (children_l n))) / 2)) \<and>
   (nodeAt data p \<noteq> None \<longrightarrow> layoutAt (layoutTree data) p \<noteq> None) \<and>
   map data_l (leavesLayout (layoutTree data))
     = filter (\<lambda>n. children n = []) (flattenTreePostOrder data) \<and>
   map y_l (leavesLayout (layoutTree data))
     = map (\<lambda>k. real k * VERTICAL_SPACING) [0..<length (leavesLayout (layoutTree data))]"
  unfolding layoutTree_def
  using layoutAt_calculateLayout [of data 0 0 p] layoutAt_defined [of data p 0 0]
    calculateLayout_leaves(1) [of data 0 0]
  by auto

theorem layoutTree_coordinates_witness:
  "nodeAt scenarioA [0] \<noteq> None \<and>
   (\<exists>n. layoutAt (layoutTree scenarioA) [0] = Some n \<and> children_l n \<noteq> [] \<and>
        x_l n = 280 \<and> y_l n = 50) \<and>
   map y_l (leavesLayout (layoutTree scenarioA)) = [0, 100, 200]"
proof -
  have d: "nodeAt scenarioA [0] \<noteq> None"
    by (simp add: scenarioA_def mkNode_def)
  have "\<exists>n. layoutAt (layoutTree scenarioA) [0] = Some n \<and> children_l n \<noteq> [] \<and>
          y_l (hd (children_l n)) = 0 \<and> y_l (last (children_l n)) = 100"
    by (simp add: layoutTree_def scenarioA_def mkNode_def VERTICAL_SPACING_def)
  then obtain n where n: "layoutAt (layoutTree scenarioA) [0] = Some n" "children_l n \<noteq> []"
      "y_l (hd (children_l n)) = 0" "y_l (last (children_l n)) = 100"
    by blast
  from layoutTree_coordinates [of scenarioA "[0]"] n
  have xy: "x_l n = real (length [0::nat]) * HORIZONTAL_SPACING" "y_l n = (0 + 100) / 2"
    by auto
  have lv: "length (leavesLayout (layoutTree scenarioA)) = 3"
    by (simp add: layoutTree_def scenarioA_def mkNode_def)
  from layoutTree_coordinates [of scenarioA "[0]"]
  have "map y_l (leavesLayout (layoutTree scenarioA))
        = map (\<lambda>k. real k * VERTICAL_SPACING) [0..<length (leavesLayout (layoutTree scenarioA))]"
    by blast
  then have ys: "map y_l (leavesLayout (layoutTree scenarioA)) = [0, 100, 200]"
    unfolding lv by (simp add: VERTICAL_SPACING_def upt_rec)
  from d n xy ys show ?thesis
    by (auto simp: HORIZONTAL_SPACING_def)
qed


section \<open>Marking the optimal path\<close>

lemma attrs_markOptimalPath [simp]: "attrs (markOptimalPath t) = attrs t"
  by (cases t) (simp add: Let_def split: option.splits)

lemma length_children_markOptimalPath [simp]:
  "length (children (markOptimalPath t)) = length (children t)"
  by (cases t) (simp add: Let_def split: option.splits)

lemma attrs_withIsOptimal [simp]: "attrs (withIsOptimal b x) = (attrs x)\<lparr>isOptimal := b\<rparr>"
  by (simp add: withIsOptimal_def)

lemma children_withIsOptimal [simp]: "children (withIsOptimal b x) = children x"
  by (simp add: withIsOptimal_def)

lemma flatten_withIsOptimal:
  "set (flattenTreePostOrder (withIsOptimal b x))
     \<subseteq> insert (withIsOptimal b x) (set (flattenTreePostOrder x))"
  by (cases x) (auto simp: withIsOptimal_def)

lemma nodeAt_withIsOptimal:
  "nodeAt (withIsOptimal b x) q = (if q = [] then Some (withIsOptimal b x) else nodeAt x q)"
  by (cases q) simp_all

text \<open>The children of a marked node, one by one.\<close>

lemma children_markOptimalPath_nth:
  assumes "i < length (children t)"
  shows "children (markOptimalPath t) ! i =
           (if type (attrs t) = TERMINAL then children t ! i
            else case calculatedValue (attrs t) of
              None \<Rightarrow> markOptimalPath (children t ! i)
            | Some v \<Rightarrow>
                if type (attrs t) = DECISION
                then withIsOptimal
                       (Some (\<bar>nullish (calculatedValue (attrs (children t ! i))) 0 - v\<bar> < 0.0001))
                       (markOptimalPath (children t ! i))
                else markOptimalPath (children t ! i))"
  using assms by (cases t) (auto simp: Let_def split: option.splits)

lemma flagged_withIsOptimal [simp]: "flagged (withIsOptimal b x) = flagged x"
  by (simp add: flagged_def)

lemma flagged_all_withIsOptimal:
  "\<forall>d \<in> set (flattenTreePostOrder x). flagged d \<Longrightarrow>
   \<forall>d \<in> set (flattenTreePostOrder (withIsOptimal b x)). flagged d"
  using flatten_withIsOptimal [of b x] self_in_flatten [of x] by auto

lemma markOptimalPath_flagged:
  "terminalsAreLeaves t \<Longrightarrow> \<forall>d \<in> set (flattenTreePostOrder (markOptimalPath t)). flagged d"
proof (induction t)
  case (TreeNode a cs)
  from TreeNode.prems have leaves: "\<And>c. c \<in> set cs \<Longrightarrow> terminalsAreLeaves c"
    by (simp add: list_all_iff)
  have sub: "\<And>c. c \<in> set cs \<Longrightarrow> \<forall>d \<in> set (flattenTreePostOrder (markOptimalPath c)). flagged d"
    using TreeNode.IH leaves by blast
  show ?case
  proof (cases "type a = TERMINAL \<or> cs = []")
    case True
    with TreeNode.prems have "cs = []" by (auto split: if_splits)
    then show ?thesis by (simp add: flagged_def)
  next
    case False
    show ?thesis
    proof (cases "calculatedValue a")
      case None
      have top: "flagged (markOptimalPath (TreeNode a cs))"
        using None by (simp add: flagged_def del: markOptimalPath.simps)
      from top False None sub show ?thesis by (auto simp: Let_def)
    next
      case (Some v)
      show ?thesis
      proof (cases "type a = DECISION")
        case True
        have top: "flagged (markOptimalPath (TreeNode a cs))"
          using False Some True by (auto simp: Let_def flagged_def)
        have rest: "\<forall>c \<in> set cs. \<forall>b. \<forall>d \<in> set (flattenTreePostOrder
                       (withIsOptimal b (markOptimalPath c))). flagged d"
          using sub flagged_all_withIsOptimal by blast
        from top rest False Some True show ?thesis
          by (auto simp: Let_def)
      next
        case no: False
        have top: "flagged (markOptimalPath (TreeNode a cs))"
          using no by (simp add: flagged_def del: markOptimalPath.simps)
        from top False Some no sub show ?thesis by (auto simp: Let_def)
      qed
    qed
  qed
qed

lemma markOptimalPath_nodeAt:
  "nodeAt t p = Some n \<Longrightarrow>
     \<exists>n'. nodeAt (markOptimalPath t) p = Some n' \<and>
          type (attrs n') = type (attrs n) \<and>
          calculatedValue (attrs n') = calculatedValue (attrs n) \<and>
          length (children n') = length (children n) \<and>
          (type (attrs n) = CHANCE \<longrightarrow>
             map (\<lambda>c. isOptimal (attrs c)) (children n')
               = map (\<lambda>c. isOptimal (attrs c)) (children n))"
proof (induction p arbitrary: t)
  case Nil
  then have n: "n = t" by simp
  have "type (attrs t) = CHANCE \<Longrightarrow>
          map (\<lambda>c. isOptimal (attrs c)) (children (markOptimalPath t))
            = map (\<lambda>c. isOptimal (attrs c)) (children t)"
    by (rule nth_equalityI) (simp_all add: children_markOptimalPath_nth split: option.splits)
  with n show ?case by simp
next
  case (Cons i q)
  from Cons.prems have i: "i < length (children t)" and sub: "nodeAt (children t ! i) q = Some n"
    by (simp_all split: if_splits)
  from Cons.IH [OF sub] obtain n' where n':
    "nodeAt (markOptimalPath (children t ! i)) q = Some n'"
    "type (attrs n') = type (attrs n)"
    "calculatedValue (attrs n') = calculatedValue (attrs n)"
    "length (children n') = length (children n)"
    "type (attrs n) = CHANCE \<longrightarrow>
       map (\<lambda>c. isOptimal (attrs c)) (children n') = map (\<lambda>c. isOptimal (attrs c)) (children n)"
    by blast
  show ?case
    using i sub n'
    by (auto simp: children_markOptimalPath_nth nodeAt_withIsOptimal split: option.splits)
qed




section \<open>The replay loop, not cancelled\<close>

lemma nodeAt_append:
  "nodeAt t (q @ p) = (case nodeAt t q of None \<Rightarrow> None | Some x \<Rightarrow> nodeAt x p)"
  by (induction q arbitrary: t) simp_all

lemma updateAt_append:
  "updateAt (q @ p) f t = updateAt q (updateAt p f) t"
  by (induction q arbitrary: t) simp_all

lemma hole_Nil: "hole [] (\<lambda>x. x)"
  by (simp add: hole_def)

lemma hole_child:
  assumes "hole q C"
  shows "hole (q @ [length pre]) (\<lambda>x. C (TreeNode a (pre @ x # rest)))"
  using assms by (simp add: hole_def nodeAt_append updateAt_append)

lemma flattenPaths_nodes:
  "map (nodeAt t) (flattenPaths t) = map Some (flattenTreePostOrder t)"
  "\<forall>pre a. k = length pre \<longrightarrow>
     map (nodeAt (TreeNode a (pre @ cs))) (flattenPathsFrom k cs)
       = map Some (concat (map flattenTreePostOrder cs))"
proof (induction t and k cs rule: flattenPaths_flattenPathsFrom.induct)
  case (1 a cs)
  from "1.IH" have "map (nodeAt (TreeNode a ([] @ cs))) (flattenPathsFrom 0 cs)
       = map Some (concat (map flattenTreePostOrder cs))" by simp
  then show ?case by simp
next
  case (2 k)
  show ?case by simp
next
  case (3 k c cs)
  show ?case
  proof (intro allI impI)
    fix pre :: "TreeNode list" and a
    assume k: "k = length pre"
    have "map (nodeAt (TreeNode a (pre @ c # cs))) (map ((#) k) (flattenPaths c))
          = map (nodeAt c) (flattenPaths c)"
      using k by (simp add: comp_def)
    moreover from "3.IH"(2) [rule_format, of "pre @ [c]" a] k
    have "map (nodeAt (TreeNode a ((pre @ [c]) @ cs))) (flattenPathsFrom (Suc k) cs)
          = map Some (concat (map flattenTreePostOrder cs))"
      by simp
    ultimately show "map (nodeAt (TreeNode a (pre @ c # cs))) (flattenPathsFrom k (c # cs))
       = map Some (concat (map flattenTreePostOrder (c # cs)))"
      using "3.IH"(1) by simp
  qed
qed

lemma solveNode_at:
  assumes "hole q C" and "workingRoot r = C x" and "\<not> aborted r"
  shows "solveNode fmt None q r =
     (if type (attrs x) = TERMINAL then
        r\<lparr>workingRoot := C (withCalculatedValue (value_n (attrs x)) x)\<rparr>
      else if calculatedValue (attrs x) \<noteq> None then r
      else
        r\<lparr>app := (app r)\<lparr>logs := logs (app r) @
                    [\<lparr>nodeLabel = label (attrs x), nodeType = type (attrs x),
                      formula = fmt (withCalculatedValue (Some (calculateNodeEMV x)) x),
                      result = calculateNodeEMV x\<rparr>],
                  root := C (withCalculatedValue (Some (calculateNodeEMV x)) x)\<rparr>,
          workingRoot := C (withCalculatedValue (Some (calculateNodeEMV x)) x),
          delays := Suc (delays r)\<rparr>)"
  using assms by (simp add: solveNode_def hole_def Let_def)

lemma solve_subtree:
  "hole q C \<Longrightarrow> workingRoot r = C t \<Longrightarrow> \<not> aborted r \<Longrightarrow>
     workingRoot (fold (solveNode fmt None) (map ((@) q) (flattenPaths t)) r) = C (evaluate t) \<and>
     solved fmt [t] r (fold (solveNode fmt None) (map ((@) q) (flattenPaths t)) r)"
proof (induction t arbitrary: q C r)
  case (TreeNode a cs)
  have kids: "set todo \<subseteq> set cs \<Longrightarrow> workingRoot r1 = C (TreeNode a (pre @ todo)) \<Longrightarrow> \<not> aborted r1 \<Longrightarrow>
     workingRoot (fold (solveNode fmt None) (map ((@) q) (flattenPathsFrom (length pre) todo)) r1)
       = C (TreeNode a (pre @ map evaluate todo)) \<and>
     solved fmt todo r1
       (fold (solveNode fmt None) (map ((@) q) (flattenPathsFrom (length pre) todo)) r1)"
    for todo pre r1
  proof (induction todo arbitrary: pre r1)
    case Nil
    then show ?case by (simp add: solved_def)
  next
    case (Cons c rest)
    let ?C = "\<lambda>x. C (TreeNode a (pre @ x # rest))"
    let ?r2 = "fold (solveNode fmt None) (map ((@) (q @ [length pre])) (flattenPaths c)) r1"
    have h: "hole (q @ [length pre]) ?C"
      using TreeNode.prems(1) by (rule hole_child)
    from Cons.prems have c: "c \<in> set cs" by simp
    from Cons.prems have w1: "workingRoot r1 = ?C c" by simp
    note step = TreeNode.IH [OF c h w1 Cons.prems(3)]
    from step have "workingRoot ?r2 = ?C (evaluate c)" by (rule conjunct1)
    then have r2: "workingRoot ?r2 = C (TreeNode a ((pre @ [evaluate c]) @ rest))"
      by simp
    from step have r2': "solved fmt [c] r1 ?r2" by (rule conjunct2)
    from r2' have na: "\<not> aborted ?r2" by (simp add: solved_def)
    from Cons.prems have sub: "set rest \<subseteq> set cs" by simp
    from Cons.IH [OF sub r2 na]
    have r3: "workingRoot (fold (solveNode fmt None)
                 (map ((@) q) (flattenPathsFrom (length (pre @ [evaluate c])) rest)) ?r2)
               = C (TreeNode a ((pre @ [evaluate c]) @ map evaluate rest))"
       "solved fmt rest ?r2 (fold (solveNode fmt None)
                 (map ((@) q) (flattenPathsFrom (length (pre @ [evaluate c])) rest)) ?r2)"
      by simp_all
    have paths: "map ((@) q) (flattenPathsFrom (length pre) (c # rest))
        = map ((@) (q @ [length pre])) (flattenPaths c)
          @ map ((@) q) (flattenPathsFrom (Suc (length pre)) rest)"
      by (simp add: comp_def)
    from r2' r3 show ?case
      unfolding paths by (simp add: solved_def)
  qed
  let ?r1 = "fold (solveNode fmt None) (map ((@) q) (flattenPathsFrom 0 cs)) r"
  from kids [where todo = cs and pre = "[]" and ?r1.0 = r] TreeNode.prems
  have r1: "workingRoot ?r1 = C (TreeNode a (map evaluate cs))" "solved fmt cs r ?r1"
    by simp_all
  from r1(2) have na: "\<not> aborted ?r1" by (simp add: solved_def)
  have last: "fold (solveNode fmt None) (map ((@) q) (flattenPaths (TreeNode a cs))) r
        = solveNode fmt None q ?r1"
    by simp
  show ?case
    unfolding last solveNode_at [OF TreeNode.prems(1) r1(1) na]
    using r1 TreeNode.prems(3)
    by (simp add: solved_def withCalculatedValue_def)
qed


lemma solveLoop_complete:
  assumes "\<not> aborted r"
  shows "workingRoot (solveLoop fmt None r) = evaluate (workingRoot r) \<and>
         solved fmt [workingRoot r] r (solveLoop fmt None r)"
proof -
  have e: "map ((@) []) ps = ps" for ps :: "path list"
    by (induction ps) simp_all
  from solve_subtree [OF hole_Nil refl assms, of fmt] show ?thesis
    by (simp add: solveLoop_def e)
qed

lemma handleSolveAuto_complete:
  "root (handleSolve fmt None False st)
     = markOptimalPath (evaluate (workingRoot (solveInit st))) \<and>
   logs (handleSolve fmt None False st)
     = logs (app (solveInit st)) @ evaluateLog fmt (workingRoot (solveInit st)) \<and>
   delays (solveLoop fmt None (solveInit st)) = length (evaluateLog fmt (workingRoot (solveInit st))) \<and>
   calculationMode (handleSolve fmt None False st) = Auto \<and>
   selectedNodeId (handleSolve fmt None False st) = selectedNodeId st"
proof -
  have na: "\<not> aborted (solveInit st)" and d: "delays (solveInit st) = 0"
    and s: "selectedNodeId (app (solveInit st)) = selectedNodeId st"
    by (simp_all add: solveInit_def Let_def)
  from solveLoop_complete [OF na, of fmt] d s show ?thesis
    by (simp add: handleSolve_def handleSolveAuto_def solveFinish_def solved_def)
qed

section \<open>Completed replays\<close>

lemma flatten_clearValuesSolve:
  "flattenTreePostOrder (clearValuesSolve t) = map clearValuesSolve (flattenTreePostOrder t)"
  by (induction t) (simp add: map_concat comp_def cong: map_cong)

lemma evaluateLog_labels:
  "map (\<lambda>e. (nodeLabel e, nodeType e)) (evaluateLog fmt t)
     = map (\<lambda>n. (label (attrs n), type (attrs n))) (filter pending (flattenTreePostOrder t))"
  by (induction t) (simp add: map_concat filter_concat comp_def pending_def cong: map_cong)

lemma attrs_evaluate:
  "attrs (evaluate n) =
     (if type (attrs n) = TERMINAL then (attrs n)\<lparr>calculatedValue := value_n (attrs n)\<rparr>
      else if calculatedValue (attrs n) \<noteq> None then attrs n
      else (attrs n)\<lparr>calculatedValue := Some (calculateNodeEMV (TreeNode (attrs n) (map evaluate (children n))))\<rparr>)"
  by (cases n) simp

lemma children_evaluate: "children (evaluate n) = map evaluate (children n)"
  by (cases n) simp

lemma nodeAt_evaluate: "nodeAt (evaluate t) p = map_option evaluate (nodeAt t p)"
proof (induction p arbitrary: t)
  case Nil
  show ?case by simp
next
  case (Cons i p)
  show ?case by (simp add: children_evaluate Cons.IH)
qed

lemma flatten_evaluate:
  "flattenTreePostOrder (evaluate t) = map evaluate (flattenTreePostOrder t)"
  by (induction t) (simp add: map_concat comp_def cong: map_cong)

lemma evaluateLog_results:
  "map (\<lambda>e. Some (result e)) (evaluateLog fmt t)
     = map (\<lambda>n. calculatedValue (attrs (evaluate n))) (filter pending (flattenTreePostOrder t))"
  by (induction t) (simp add: map_concat filter_concat comp_def pending_def cong: map_cong)

lemma strip_TreeNode: "strip (TreeNode a cs) = a\<lparr>isOptimal := None\<rparr>"
  by (simp add: strip_def)

lemma strip_withIsOptimal:
  "map strip (flattenTreePostOrder (withIsOptimal b x)) = map strip (flattenTreePostOrder x)"
  by (cases x) (simp add: withIsOptimal_def strip_def)

lemma flatten_markOptimalPath:
  "map strip (flattenTreePostOrder (markOptimalPath t)) = map strip (flattenTreePostOrder t)"
proof (induction t)
  case (TreeNode a cs)
  have 1: "concat (map (\<lambda>c. map strip (flattenTreePostOrder (markOptimalPath c))) cs)
         = concat (map (\<lambda>c. map strip (flattenTreePostOrder c)) cs)"
    using TreeNode.IH by (simp cong: map_cong)
  have 2: "concat (map (\<lambda>c. map strip (flattenTreePostOrder (withIsOptimal (f c) (markOptimalPath c)))) cs)
         = concat (map (\<lambda>c. map strip (flattenTreePostOrder c)) cs)" for f
    using TreeNode.IH by (simp add: strip_withIsOptimal cong: map_cong)
  show ?case
    using 1 2 [of "\<lambda>c. Some (\<bar>nullish (calculatedValue (attrs (markOptimalPath c))) 0 - v\<bar> < 0.0001)" for v]
    by (auto simp: Let_def map_concat comp_def strip_TreeNode split: option.splits)
qed

lemma strip_sel:
  "type (strip x) = type (attrs x)"
  "calculatedValue (strip x) = calculatedValue (attrs x)"
  "value_n (strip x) = value_n (attrs x)"
  "label (strip x) = label (attrs x)"
  by (simp_all add: strip_def)

lemma strip_eqD:
  assumes "strip m = strip n"
  shows "type (attrs m) = type (attrs n)"
    and "calculatedValue (attrs m) = calculatedValue (attrs n)"
    and "value_n (attrs m) = value_n (attrs n)"
    and "label (attrs m) = label (attrs n)"
  using arg_cong [OF assms, of type] arg_cong [OF assms, of calculatedValue]
    arg_cong [OF assms, of value_n] arg_cong [OF assms, of label]
  by (simp_all add: strip_sel)

lemma strip_filter_cv:
  "map strip xs = map strip ys \<Longrightarrow>
   map (\<lambda>n. calculatedValue (attrs n)) (filter (\<lambda>n. type (attrs n) \<noteq> TERMINAL) xs)
     = map (\<lambda>n. calculatedValue (attrs n)) (filter (\<lambda>n. type (attrs n) \<noteq> TERMINAL) ys)"
proof (induction xs arbitrary: ys)
  case Nil
  then show ?case by simp
next
  case (Cons x xs)
  then obtain y ys' where ys: "ys = y # ys'" by (cases ys) auto
  with Cons.prems have "strip x = strip y" and "map strip xs = map strip ys'" by simp_all
  moreover from \<open>strip x = strip y\<close>
  have "type (attrs x) = type (attrs y)" "calculatedValue (attrs x) = calculatedValue (attrs y)"
    by (rule strip_eqD)+
  ultimately show ?case using Cons.IH [of ys'] ys by simp
qed

lemma strip_set:
  assumes "map strip xs = map strip ys" and "n \<in> set xs"
  shows "\<exists>m \<in> set ys. type (attrs m) = type (attrs n) \<and>
            calculatedValue (attrs m) = calculatedValue (attrs n) \<and>
            value_n (attrs m) = value_n (attrs n)"
proof -
  from assms have "strip n \<in> set (map strip ys)" by (metis imageI set_map)
  then obtain m where m: "m \<in> set ys" "strip m = strip n" by auto
  from m(2) have "type (attrs m) = type (attrs n)"
    "calculatedValue (attrs m) = calculatedValue (attrs n)"
    "value_n (attrs m) = value_n (attrs n)"
    by (rule strip_eqD)+
  with m(1) show ?thesis by blast
qed

lemma solveInit_fresh:
  assumes "calculationMode st \<noteq> Step"
  shows "workingRoot (solveInit st) = clearValuesSolve (root st)"
    and "logs (app (solveInit st)) = []"
  using assms by (cases "calculationMode st"; simp add: solveInit_def Let_def)+

lemma pending_clearValuesSolve:
  "pending (clearValuesSolve n) \<longleftrightarrow> type (attrs n) \<noteq> TERMINAL"
  by (simp add: pending_def attrs_clearValuesSolve)

lemma type_evaluate [simp]: "type (attrs (evaluate n)) = type (attrs n)"
  by (simp add: attrs_evaluate)

text \<open>
  C3. A replay entered from Edit or from Solved and not cancelled logs exactly the nodes
  that are not Terminal, one entry each, in the order of \<open>flattenTreePostOrder\<close>: the
  labels and types of the entries are those of these nodes, and the results are their
  calculatedValues in the final tree. The loop meets one pacing delay per entry, so none
  for a Terminal node, and every Terminal node ends with its value as calculatedValue.
  On a tree of the shape of Scenario B the log is: first Chance child, second Chance
  child, Decision root.
\<close>

theorem handleSolve_auto_logs_internal_nodes:
  assumes "calculationMode st \<noteq> Step"
  shows "map (\<lambda>e. (nodeLabel e, nodeType e)) (logs (handleSolve fmt None False st))
           = map (\<lambda>n. (label (attrs n), type (attrs n)))
               (filter (\<lambda>n. type (attrs n) \<noteq> TERMINAL) (flattenTreePostOrder (root st))) \<and>
         map (\<lambda>e. Some (result e)) (logs (handleSolve fmt None False st))
           = map (\<lambda>n. calculatedValue (attrs n))
               (filter (\<lambda>n. type (attrs n) \<noteq> TERMINAL)
                  (flattenTreePostOrder (root (handleSolve fmt None False st)))) \<and>
         delays (solveLoop fmt None (solveInit st)) = length (logs (handleSolve fmt None False st)) \<and>
         (\<forall>n \<in> set (flattenTreePostOrder (root (handleSolve fmt None False st))).
            type (attrs n) = TERMINAL \<longrightarrow> calculatedValue (attrs n) = value_n (attrs n)) \<and>
         (\<forall>r a b t1 t2 t3 t4.
            root st = TreeNode r [TreeNode a [TreeNode t1 [], TreeNode t2 []],
                                 TreeNode b [TreeNode t3 [], TreeNode t4 []]] \<and>
            type r = DECISION \<and> type a = CHANCE \<and> type b = CHANCE \<and>
            type t1 = TERMINAL \<and> type t2 = TERMINAL \<and> type t3 = TERMINAL \<and> type t4 = TERMINAL
            \<longrightarrow> map (\<lambda>e. (nodeLabel e, nodeType e)) (logs (handleSolve fmt None False st))
                  = [(label a, CHANCE), (label b, CHANCE), (label r, DECISION)])"
proof -
  let ?w = "clearValuesSolve (root st)"
  let ?st' = "handleSolve fmt None False st"
  note init = solveInit_fresh [OF assms]
  from handleSolveAuto_complete [of fmt st] init
  have rt: "root ?st' = markOptimalPath (evaluate ?w)"
    and lg: "logs ?st' = evaluateLog fmt ?w"
    and dl: "delays (solveLoop fmt None (solveInit st)) = length (evaluateLog fmt ?w)"
    by simp_all
  have pend: "filter pending (flattenTreePostOrder ?w)
        = map clearValuesSolve (filter (\<lambda>n. type (attrs n) \<noteq> TERMINAL) (flattenTreePostOrder (root st)))"
    by (simp add: flatten_clearValuesSolve filter_map comp_def pending_clearValuesSolve)
  have labels: "map (\<lambda>e. (nodeLabel e, nodeType e)) (logs ?st')
           = map (\<lambda>n. (label (attrs n), type (attrs n)))
               (filter (\<lambda>n. type (attrs n) \<noteq> TERMINAL) (flattenTreePostOrder (root st)))"
    unfolding lg evaluateLog_labels pend
    by (simp add: comp_def attrs_clearValuesSolve)
  have "map (\<lambda>n. calculatedValue (attrs n))
          (filter (\<lambda>n. type (attrs n) \<noteq> TERMINAL) (flattenTreePostOrder (root ?st')))
        = map (\<lambda>n. calculatedValue (attrs n))
          (filter (\<lambda>n. type (attrs n) \<noteq> TERMINAL) (flattenTreePostOrder (evaluate ?w)))"
    unfolding rt by (rule strip_filter_cv [OF flatten_markOptimalPath])
  also have "\<dots> = map (\<lambda>n. calculatedValue (attrs (evaluate n)))
                     (filter (\<lambda>n. type (attrs n) \<noteq> TERMINAL) (flattenTreePostOrder ?w))"
    by (simp add: flatten_evaluate filter_map comp_def)
  also have "filter (\<lambda>n. type (attrs n) \<noteq> TERMINAL) (flattenTreePostOrder ?w)
             = filter pending (flattenTreePostOrder ?w)"
    unfolding pend
    by (simp add: flatten_clearValuesSolve filter_map comp_def attrs_clearValuesSolve)
  finally have results: "map (\<lambda>e. Some (result e)) (logs ?st')
           = map (\<lambda>n. calculatedValue (attrs n))
               (filter (\<lambda>n. type (attrs n) \<noteq> TERMINAL) (flattenTreePostOrder (root ?st')))"
    unfolding lg evaluateLog_results by simp
  have terminals: "\<forall>n \<in> set (flattenTreePostOrder (root ?st')).
            type (attrs n) = TERMINAL \<longrightarrow> calculatedValue (attrs n) = value_n (attrs n)"
  proof (intro ballI impI)
    fix n
    assume n: "n \<in> set (flattenTreePostOrder (root ?st'))" and t: "type (attrs n) = TERMINAL"
    from strip_set [OF flatten_markOptimalPath n [unfolded rt]]
    obtain m where m: "m \<in> set (flattenTreePostOrder (evaluate ?w))"
        "type (attrs m) = type (attrs n)" "calculatedValue (attrs m) = calculatedValue (attrs n)"
        "value_n (attrs m) = value_n (attrs n)"
      by blast
    from m(1) obtain k where "m = evaluate k" by (auto simp: flatten_evaluate)
    with m t show "calculatedValue (attrs n) = value_n (attrs n)"
      by (auto simp: attrs_evaluate split: if_splits)
  qed
  have scenario: "\<forall>r a b t1 t2 t3 t4.
            root st = TreeNode r [TreeNode a [TreeNode t1 [], TreeNode t2 []],
                                 TreeNode b [TreeNode t3 [], TreeNode t4 []]] \<and>
            type r = DECISION \<and> type a = CHANCE \<and> type b = CHANCE \<and>
            type t1 = TERMINAL \<and> type t2 = TERMINAL \<and> type t3 = TERMINAL \<and> type t4 = TERMINAL
            \<longrightarrow> map (\<lambda>e. (nodeLabel e, nodeType e)) (logs ?st')
                  = [(label a, CHANCE), (label b, CHANCE), (label r, DECISION)]"
    unfolding labels by auto
  from labels results dl lg terminals scenario show ?thesis by simp
qed


theorem handleSolve_auto_logs_internal_nodes_witness:
  "calculationMode (editState scenarioB) \<noteq> Step \<and>
   map (\<lambda>e. (nodeLabel e, nodeType e)) (logs (handleSolve noFormula None False (editState scenarioB)))
     = [(''A'', CHANCE), (''B'', CHANCE), (''root'', DECISION)] \<and>
   map result (logs (handleSolve noFormula None False (editState scenarioB))) = [50, 40, 50] \<and>
   delays (solveLoop noFormula None (solveInit (editState scenarioB))) = 3"
proof -
  let ?st' = "handleSolve noFormula None False (editState scenarioB)"
  have h: "calculationMode (editState scenarioB) \<noteq> Step"
    by (simp add: editState_def)
  note inst = handleSolve_auto_logs_internal_nodes [OF h, of noFormula]
  have shape: "root (editState scenarioB)
      = TreeNode (attrs scenarioB)
          [TreeNode (attrs (children scenarioB ! 0))
             [TreeNode (attrs (children (children scenarioB ! 0) ! 0)) [],
              TreeNode (attrs (children (children scenarioB ! 0) ! 1)) []],
           TreeNode (attrs (children scenarioB ! 1))
             [TreeNode (attrs (children (children scenarioB ! 1) ! 0)) [],
              TreeNode (attrs (children (children scenarioB ! 1) ! 1)) []]]"
    by (simp add: editState_def scenarioB_def mkNode_def)
  have types: "type (attrs scenarioB) = DECISION"
    "type (attrs (children scenarioB ! 0)) = CHANCE"
    "type (attrs (children scenarioB ! 1)) = CHANCE"
    "type (attrs (children (children scenarioB ! 0) ! 0)) = TERMINAL"
    "type (attrs (children (children scenarioB ! 0) ! 1)) = TERMINAL"
    "type (attrs (children (children scenarioB ! 1) ! 0)) = TERMINAL"
    "type (attrs (children (children scenarioB ! 1) ! 1)) = TERMINAL"
    by (simp_all add: scenarioB_def mkNode_def)
  from inst have sc: "\<forall>r a b t1 t2 t3 t4.
            root (editState scenarioB) = TreeNode r [TreeNode a [TreeNode t1 [], TreeNode t2 []],
                                 TreeNode b [TreeNode t3 [], TreeNode t4 []]] \<and>
            type r = DECISION \<and> type a = CHANCE \<and> type b = CHANCE \<and>
            type t1 = TERMINAL \<and> type t2 = TERMINAL \<and> type t3 = TERMINAL \<and> type t4 = TERMINAL
            \<longrightarrow> map (\<lambda>e. (nodeLabel e, nodeType e)) (logs ?st')
                  = [(label a, CHANCE), (label b, CHANCE), (label r, DECISION)]"
    by blast
  from sc [rule_format, OF conjI [OF shape]] types
  have "map (\<lambda>e. (nodeLabel e, nodeType e)) (logs ?st')
      = [(label (attrs (children scenarioB ! 0)), CHANCE),
         (label (attrs (children scenarioB ! 1)), CHANCE),
         (label (attrs scenarioB), DECISION)]"
    by blast
  then have labels: "map (\<lambda>e. (nodeLabel e, nodeType e)) (logs ?st')
      = [(''A'', CHANCE), (''B'', CHANCE), (''root'', DECISION)]"
    by (simp add: scenarioB_def mkNode_def)
  from arg_cong [OF labels, of length] have len: "length (logs ?st') = 3" by simp
  from inst len have d: "delays (solveLoop noFormula None (solveInit (editState scenarioB))) = 3"
    by simp
  have res: "map result (logs ?st') = [50, 40, 50]"
    by (simp add: run_defs scenarioB_def)
  from h labels res d show ?thesis by blast
qed

lemma calculateNodeEMV_decision:
  "type (attrs n) = DECISION \<Longrightarrow> children n \<noteq> [] \<Longrightarrow>
     calculateNodeEMV n = Max (set (map (\<lambda>c. nullish (calculatedValue (attrs c)) 0) (children n)))"
  by (cases "children n") (simp_all add: calculateNodeEMV_def Math_max_Max)

lemma terminalsAreLeaves_evaluate:
  "terminalsAreLeaves (evaluate t) = terminalsAreLeaves t"
  by (induction t) (auto simp: list_all_iff)

lemma hasOptimalChild_withIsOptimal [simp]:
  "hasOptimalChild (withIsOptimal b x) = hasOptimalChild x"
  by (simp add: hasOptimalChild_def)

lemma hasOptimalChild_all_withIsOptimal:
  "\<forall>d \<in> set (flattenTreePostOrder x). hasOptimalChild d \<Longrightarrow>
   \<forall>d \<in> set (flattenTreePostOrder (withIsOptimal b x)). hasOptimalChild d"
  using flatten_withIsOptimal [of b x] self_in_flatten [of x] by auto

lemma markOptimalPath_hasOptimalChild:
  "terminalsAreLeaves t \<Longrightarrow> \<forall>n \<in> set (flattenTreePostOrder t). computed n \<Longrightarrow>
   \<forall>d \<in> set (flattenTreePostOrder (markOptimalPath t)). hasOptimalChild d"
proof (induction t)
  case (TreeNode a cs)
  from TreeNode.prems(1) have leaves: "\<And>c. c \<in> set cs \<Longrightarrow> terminalsAreLeaves c"
    by (simp add: list_all_iff)
  from TreeNode.prems(2) have comp: "\<And>c. c \<in> set cs \<Longrightarrow> \<forall>n \<in> set (flattenTreePostOrder c). computed n"
    by auto
  have sub: "\<And>c. c \<in> set cs \<Longrightarrow>
      \<forall>d \<in> set (flattenTreePostOrder (markOptimalPath c)). hasOptimalChild d"
    using TreeNode.IH leaves comp by blast
  from TreeNode.prems(2) have ctop: "computed (TreeNode a cs)" by simp
  have ckid: "\<And>c. c \<in> set cs \<Longrightarrow> calculatedValue (attrs c) \<noteq> None"
    using comp self_in_flatten by (auto simp: computed_def)
  show ?case
  proof (cases "type a = TERMINAL \<or> cs = []")
    case True
    with TreeNode.prems(1) have "cs = []" by (auto split: if_splits)
    then show ?thesis by (simp add: hasOptimalChild_def)
  next
    case False
    from ctop obtain v where v: "calculatedValue a = Some v" by (auto simp: computed_def)
    show ?thesis
    proof (cases "type a = DECISION")
      case True
      let ?vals = "map (\<lambda>c. nullish (calculatedValue (attrs c)) 0) cs"
      from ctop True False v have vmax: "v = Max (set ?vals)" by (simp add: computed_def)
      from False have "set ?vals \<noteq> {}" by simp
      then have "Max (set ?vals) \<in> set ?vals" by (intro Max_in) simp_all
      with vmax obtain c where c: "c \<in> set cs" "nullish (calculatedValue (attrs c)) 0 = v"
        by auto
      from ckid [OF c(1)] c(2) have cv: "calculatedValue (attrs c) = Some v"
        by (auto simp: nullish_def)
      let ?c' = "withIsOptimal (Some (\<bar>nullish (calculatedValue (attrs (markOptimalPath c))) 0 - v\<bar> < 0.0001))
                   (markOptimalPath c)"
      have c': "?c' \<in> set (children (markOptimalPath (TreeNode a cs)))"
        using False v True c(1) by (auto simp: Let_def)
      have "calculatedValue (attrs ?c') = Some v" "isOptimal (attrs ?c') = Some True"
        using cv by (simp_all add: nullish_def)
      with c' have top: "hasOptimalChild (markOptimalPath (TreeNode a cs))"
        unfolding hasOptimalChild_def using v
        by (intro impI exI [of _ v] conjI bexI [of _ ?c']) (simp_all del: markOptimalPath.simps)
      have rest: "\<forall>c \<in> set cs. \<forall>b. \<forall>d \<in> set (flattenTreePostOrder
                     (withIsOptimal b (markOptimalPath c))). hasOptimalChild d"
        using sub hasOptimalChild_all_withIsOptimal by blast
      from top rest False v True show ?thesis
        by (auto simp: Let_def)
    next
      case no: False
      have top: "hasOptimalChild (markOptimalPath (TreeNode a cs))"
        using no by (simp add: hasOptimalChild_def del: markOptimalPath.simps)
      from top False v no sub show ?thesis by (auto simp: Let_def)
    qed
  qed
qed

section \<open>Manual steps\<close>

lemma stepFindIn_bound: "stepFindIn cs = Some (i, p, n) \<Longrightarrow> i < length cs"
  by (induction cs arbitrary: i) (auto split: option.splits)

lemma stepFind_node:
  "stepFind t = Some (p, n) \<Longrightarrow> nodeAt (assignTerminals t) p = Some n"
  "stepFindIn cs = Some (i, p, n) \<Longrightarrow> nodeAt (assignTerminals (cs ! i)) p = Some n"
  by (induction t and cs arbitrary: p n and i p n rule: stepFind_stepFindIn.induct)
     (auto split: option.splits if_splits dest: stepFindIn_bound)

lemma stepCalculate_char:
  "stepCalculate fmt t s =
     (if fst s then (assignTerminals t, True, snd s)
      else case stepFind t of
        None \<Rightarrow> (assignTerminals t, False, snd s)
      | Some (p, n) \<Rightarrow> (updateAt p solveAt (assignTerminals t), True, snd s @ [entryOf fmt n]))"
  "stepCalculateChildren fmt cs s =
     (if fst s then (map assignTerminals cs, True, snd s)
      else case stepFindIn cs of
        None \<Rightarrow> (map assignTerminals cs, False, snd s)
      | Some (i, p, n) \<Rightarrow>
          ((map assignTerminals cs)[i := updateAt p solveAt (assignTerminals (cs ! i))], True,
           snd s @ [entryOf fmt n]))"
proof (induction fmt t s and fmt cs s rule: stepCalculate_stepCalculateChildren.induct)
  case (1 fmt a cs s)
  show ?case
  proof (cases "calculatedValue a \<noteq> None \<or> type a = TERMINAL")
    case True
    then show ?thesis by (cases s) auto
  next
    case False
    then have kids: "stepCalculateChildren fmt cs s =
     (if fst s then (map assignTerminals cs, True, snd s)
      else case stepFindIn cs of
        None \<Rightarrow> (map assignTerminals cs, False, snd s)
      | Some (i, p, n) \<Rightarrow>
          ((map assignTerminals cs)[i := updateAt p solveAt (assignTerminals (cs ! i))], True,
           snd s @ [entryOf fmt n]))"
      using "1.IH" by blast
    show ?thesis
    proof (cases "fst s")
      case True
      with False kids show ?thesis by simp
    next
      case nf: False
      show ?thesis
      proof (cases "stepFindIn cs")
        case None
        with False nf kids show ?thesis
          by (simp add: Let_def solveAt_def entryOf_def)
      next
        case (Some ipn)
        obtain i p n where ipn: "ipn = (i, p, n)" by (cases ipn)
        from Some ipn have b: "i < length cs" by (auto dest: stepFindIn_bound)
        with False nf kids Some ipn show ?thesis
          by simp
      qed
    qed
  qed
next
  case (2 fmt s)
  show ?case by (cases s) simp
next
  case (3 fmt c cs s)
  obtain c' s' where c': "stepCalculate fmt c s = (c', s')"
    by (cases "stepCalculate fmt c s") auto
  note h1 = "3.IH"(1)
  note h2 = "3.IH"(2) [OF c' [symmetric]]
  show ?case
  proof (cases "fst s")
    case True
    with h1 c' have "c' = assignTerminals c" "s' = (True, snd s)" by simp_all
    with h2 c' True show ?thesis by simp
  next
    case nf: False
    show ?thesis
    proof (cases "stepFind c")
      case None
      with h1 c' nf have "c' = assignTerminals c" "s' = (False, snd s)" by simp_all
      with h2 c' nf None show ?thesis
        by (auto split: option.splits)
    next
      case (Some pn)
      obtain p n where pn: "pn = (p, n)" by (cases pn)
      with h1 c' nf Some have "c' = updateAt p solveAt (assignTerminals c)"
          "s' = (True, snd s @ [entryOf fmt n])" by simp_all
      with h2 c' nf Some pn show ?thesis by simp
    qed
  qed
qed


lemma handleSolveStep_char:
  "handleSolve fmt cancel True st =
     (case stepFind (root st) of
        None \<Rightarrow> st\<lparr>calculationMode := Auto, logs := logs st,
                    root := markOptimalPath (assignTerminals (root st))\<rparr>
      | Some (p, n) \<Rightarrow> st\<lparr>calculationMode := Step, logs := logs st @ [entryOf fmt n],
                         root := updateAt p solveAt (assignTerminals (root st))\<rparr>)"
  by (simp add: handleSolve_def handleSolveStep_def stepCalculate_char(1) split: option.splits)

lemma stepFindIn_NoneD: "stepFindIn cs = None \<Longrightarrow> c \<in> set cs \<Longrightarrow> stepFind c = None"
  by (induction cs) (auto split: option.splits)

lemma stepFind_pending:
  "stepFind t = Some (p, n) \<Longrightarrow>
     type (attrs n) \<noteq> TERMINAL \<and> calculatedValue (attrs n) = None \<and>
     list_all (\<lambda>c. calculatedValue (attrs c) \<noteq> None) (children n)"
  "stepFindIn cs = Some (i, p, n) \<Longrightarrow>
     type (attrs n) \<noteq> TERMINAL \<and> calculatedValue (attrs n) = None \<and>
     list_all (\<lambda>c. calculatedValue (attrs c) \<noteq> None) (children n)"
  by (induction t and cs arbitrary: p n and i p n rule: stepFind_stepFindIn.induct)
     (auto split: option.splits if_splits)

lemma valuesClosed_all:
  "valuesClosed t \<Longrightarrow> calculatedValue (attrs t) \<noteq> None \<Longrightarrow> nodeAt t q = Some n \<Longrightarrow>
     calculatedValue (attrs n) \<noteq> None"
proof (induction q arbitrary: t)
  case Nil
  then show ?case by simp
next
  case (Cons i r)
  obtain a cs where t: "t = TreeNode a cs" by (cases t)
  from Cons.prems t have i: "i < length cs" and sub: "nodeAt (cs ! i) r = Some n"
    by (simp_all split: if_splits)
  from Cons.prems(1,2) t i have "valuesClosed (cs ! i)" "calculatedValue (attrs (cs ! i)) \<noteq> None"
    by (simp_all add: list_all_length)
  from Cons.IH [OF this sub] show ?case .
qed

lemma attrsAt_assignTerminals:
  "terminalsAreLeaves t \<Longrightarrow> valuesClosed t \<Longrightarrow>
   attrsAt (assignTerminals t) q =
     map_option (\<lambda>a. if type a = TERMINAL \<and> calculatedValue a = None
                     then a\<lparr>calculatedValue := value_n a\<rparr> else a) (attrsAt t q)"
proof (induction q arbitrary: t)
  case Nil
  then show ?case by (cases t) (simp add: attrsAt_def)
next
  case (Cons i r)
  obtain a cs where t: "t = TreeNode a cs" by (cases t)
  show ?case
  proof (cases "calculatedValue a \<noteq> None")
    case True
    with t have same: "assignTerminals t = t" by simp
    show ?thesis
    proof (cases "nodeAt t (i # r)")
      case None
      then show ?thesis unfolding same attrsAt_def by simp
    next
      case (Some n)
      from True t have "calculatedValue (attrs t) \<noteq> None" by simp
      from valuesClosed_all [OF Cons.prems(2) this Some]
      show ?thesis unfolding same attrsAt_def Some by auto
    qed
  next
    case False
    show ?thesis
    proof (cases "type a = TERMINAL")
      case True
      with Cons.prems(1) t have "cs = []" by simp
      with t show ?thesis by (simp add: attrsAt_def)
    next
      case nt: False
      show ?thesis
      proof (cases "i < length cs")
        case True
        with Cons.prems t have "terminalsAreLeaves (cs ! i)" "valuesClosed (cs ! i)"
          by (simp_all add: list_all_length)
        from Cons.IH [OF this] True False nt t show ?thesis
          by (simp add: attrsAt_def)
      next
        case False
        with nt \<open>\<not> calculatedValue a \<noteq> None\<close> t show ?thesis by (simp add: attrsAt_def)
      qed
    qed
  qed
qed

lemma attrsAt_updateAt:
  "nodeAt t p = Some x \<Longrightarrow> children (f x) = children x \<Longrightarrow>
   attrsAt (updateAt p f t) q = (if q = p then Some (attrs (f x)) else attrsAt t q)"
proof (induction p arbitrary: t q)
  case Nil
  then show ?case by (cases q) (simp_all add: attrsAt_def)
next
  case (Cons i p')
  from Cons.prems have i: "i < length (children t)" and sub: "nodeAt (children t ! i) p' = Some x"
    by (simp_all split: if_splits)
  show ?case
  proof (cases q)
    case Nil
    with i show ?thesis by (simp add: attrsAt_def)
  next
    case (Cons j r)
    show ?thesis
    proof (cases "j = i")
      case True
      with Cons i Cons.IH [OF sub Cons.prems(2), of r] show ?thesis
        by (simp add: attrsAt_def)
    next
      case False
      with Cons i show ?thesis by (simp add: attrsAt_def)
    qed
  qed
qed

lemma attrsAt_markOptimalPath:
  "map_option (\<lambda>a. a\<lparr>isOptimal := None\<rparr>) (attrsAt (markOptimalPath t) q)
     = map_option (\<lambda>a. a\<lparr>isOptimal := None\<rparr>) (attrsAt t q)"
proof (induction q arbitrary: t)
  case Nil
  show ?case by (simp add: attrsAt_def)
next
  case (Cons i r)
  show ?case
  proof (cases "i < length (children t)")
    case True
    have w: "attrsAt (withIsOptimal b x) r
             = (if r = [] then Some ((attrs x)\<lparr>isOptimal := b\<rparr>) else attrsAt x r)" for b x
      by (simp add: attrsAt_def nodeAt_withIsOptimal)
    have "map_option (\<lambda>a. a\<lparr>isOptimal := None\<rparr>) (attrsAt (children (markOptimalPath t) ! i) r)
        = map_option (\<lambda>a. a\<lparr>isOptimal := None\<rparr>) (attrsAt (children t ! i) r)"
      using Cons.IH [of "children t ! i"] True
      by (auto simp: children_markOptimalPath_nth w split: option.splits)
         (simp_all add: attrsAt_def)
    with True show ?thesis by (simp add: attrsAt_def)
  next
    case False
    then show ?thesis by (simp add: attrsAt_def)
  qed
qed


lemma unflag_eqD:
  assumes "a\<lparr>isOptimal := None\<rparr> = b\<lparr>isOptimal := None\<rparr>"
  shows "type a = type b" and "calculatedValue a = calculatedValue b" and "label a = label b"
proof -
  have "type a = type (a\<lparr>isOptimal := None\<rparr>)" by simp
  also have "\<dots> = type (b\<lparr>isOptimal := None\<rparr>)" by (simp only: assms)
  finally show "type a = type b" by simp
  have "calculatedValue a = calculatedValue (a\<lparr>isOptimal := None\<rparr>)" by simp
  also have "\<dots> = calculatedValue (b\<lparr>isOptimal := None\<rparr>)" by (simp only: assms)
  finally show "calculatedValue a = calculatedValue b" by simp
  have "label a = label (a\<lparr>isOptimal := None\<rparr>)" by simp
  also have "\<dots> = label (b\<lparr>isOptimal := None\<rparr>)" by (simp only: assms)
  finally show "label a = label b" by simp
qed

lemma attrsAt_markOptimalPath_Some:
  assumes "attrsAt t q = Some a"
  shows "\<exists>a'. attrsAt (markOptimalPath t) q = Some a' \<and> type a' = type a \<and>
              calculatedValue a' = calculatedValue a \<and> label a' = label a"
proof -
  from attrsAt_markOptimalPath [of t q] assms
  obtain a' where a': "attrsAt (markOptimalPath t) q = Some a'"
      "a'\<lparr>isOptimal := None\<rparr> = a\<lparr>isOptimal := None\<rparr>"
    by (cases "attrsAt (markOptimalPath t) q") auto
  from unflag_eqD [OF a'(2)] a'(1) show ?thesis by blast
qed

lemma children_solveAt [simp]: "children (solveAt x) = children x"
  by (simp add: solveAt_def withCalculatedValue_def)

lemma attrs_solveAt:
  "attrs (solveAt x) = (attrs x)\<lparr>calculatedValue := Some (calculateNodeEMV x)\<rparr>"
  by (simp add: solveAt_def withCalculatedValue_def)

lemma valuesClosed_flat:
  "valuesClosed t \<Longrightarrow> calculatedValue (attrs t) \<noteq> None \<Longrightarrow>
     \<forall>n \<in> set (flattenTreePostOrder t). calculatedValue (attrs n) \<noteq> None"
proof (induction t)
  case (TreeNode a cs)
  have "\<forall>c \<in> set cs. \<forall>n \<in> set (flattenTreePostOrder c). calculatedValue (attrs n) \<noteq> None"
  proof
    fix c assume c: "c \<in> set cs"
    with TreeNode.prems have "valuesClosed c" "calculatedValue (attrs c) \<noteq> None"
      by (auto simp: list_all_iff)
    from TreeNode.IH [OF c this]
    show "\<forall>n \<in> set (flattenTreePostOrder c). calculatedValue (attrs n) \<noteq> None" .
  qed
  with TreeNode.prems(2) show ?case by auto
qed

lemma stepFind_live:
  "terminalsAreLeaves t \<Longrightarrow> valuesClosed t \<Longrightarrow>
   \<forall>n \<in> set (flattenTreePostOrder t). type (attrs n) = TERMINAL \<longrightarrow> value_n (attrs n) \<noteq> None \<Longrightarrow>
   \<exists>n \<in> set (flattenTreePostOrder t). type (attrs n) \<noteq> TERMINAL \<and> calculatedValue (attrs n) = None \<Longrightarrow>
   stepFind t \<noteq> None"
proof (induction t)
  case (TreeNode a cs)
  show ?case
  proof (cases "calculatedValue a \<noteq> None")
    case True
    then have "calculatedValue (attrs (TreeNode a cs)) \<noteq> None" by simp
    from valuesClosed_flat [OF TreeNode.prems(2) this] TreeNode.prems(4) show ?thesis
      by blast
  next
    case False
    show ?thesis
    proof (cases "type a = TERMINAL")
      case True
      with TreeNode.prems(1) have "cs = []" by simp
      with True TreeNode.prems(4) show ?thesis by simp
    next
      case nt: False
      show ?thesis
      proof (cases "stepFindIn cs")
        case (Some ipn)
        with False nt show ?thesis by (cases ipn) simp
      next
        case None
        have "calculatedValue (attrs (assignTerminals c)) \<noteq> None" if c: "c \<in> set cs" for c
        proof -
          from TreeNode.prems c have inv: "terminalsAreLeaves c" "valuesClosed c"
            "\<forall>n \<in> set (flattenTreePostOrder c). type (attrs n) = TERMINAL \<longrightarrow> value_n (attrs n) \<noteq> None"
            by (auto simp: list_all_iff)
          from stepFindIn_NoneD [OF None c] TreeNode.IH [OF c inv]
          have "\<not> (\<exists>n \<in> set (flattenTreePostOrder c).
                     type (attrs n) \<noteq> TERMINAL \<and> calculatedValue (attrs n) = None)"
            by blast
          with self_in_flatten [of c]
          have "type (attrs c) = TERMINAL \<or> calculatedValue (attrs c) \<noteq> None" by auto
          moreover from inv(3) self_in_flatten [of c]
          have "type (attrs c) = TERMINAL \<longrightarrow> value_n (attrs c) \<noteq> None" by blast
          ultimately show ?thesis by (cases c) auto
        qed
        then have "list_all (\<lambda>c. calculatedValue (attrs c) \<noteq> None) (map assignTerminals cs)"
          by (simp add: list_all_iff)
        with None False nt show ?thesis by simp
      qed
    qed
  qed
qed




section \<open>The order of the log\<close>

lemma iview_Nil: "iview t [] = Some (view (attrs t))"
  by (simp add: iview_def attrsAt_def)

lemma iview_Cons:
  "iview t (i # r) = (if i < length (children t) then iview (children t ! i) r else None)"
  by (simp add: iview_def attrsAt_def)

lemma iview_append:
  "iview t (q @ r) = (case nodeAt t q of None \<Rightarrow> None | Some x \<Rightarrow> iview x r)"
  by (simp add: iview_def attrsAt_def nodeAt_append split: option.splits)

lemma iview_prefix: "iview t (q @ r) \<noteq> None \<Longrightarrow> iview t q \<noteq> None"
  by (auto simp: iview_def attrsAt_def nodeAt_append split: option.splits)

lemma iview_assignTerminals: "iview (assignTerminals t) q = iview t q"
proof (induction q arbitrary: t)
  case Nil
  show ?case by (cases t) (simp add: iview_Nil view_def)
next
  case (Cons i r)
  show ?case by (cases t) (simp add: iview_Cons Cons.IH)
qed

lemma view_unflag: "view (a\<lparr>isOptimal := b\<rparr>) = view a"
  by (simp add: view_def)

lemma iview_markOptimalPath: "iview (markOptimalPath t) q = iview t q"
proof -
  have "map_option view (map_option (\<lambda>a. a\<lparr>isOptimal := None\<rparr>) (attrsAt (markOptimalPath t) q))
      = map_option view (map_option (\<lambda>a. a\<lparr>isOptimal := None\<rparr>) (attrsAt t q))"
    by (simp only: attrsAt_markOptimalPath)
  then show ?thesis
    by (simp add: iview_def option.map_comp comp_def view_unflag)
qed

lemma iview_updateAt_solveAt:
  assumes "nodeAt t p = Some x" and "type (attrs x) \<noteq> TERMINAL"
  shows "iview (updateAt p solveAt t) q =
           (if q = p then Some (type (attrs x), label (attrs x), Some (calculateNodeEMV x))
            else iview t q)"
  using attrsAt_updateAt [where f = solveAt, OF assms(1) children_solveAt, of q] assms(2)
  by (simp add: iview_def view_def attrs_solveAt)

lemma iview_evaluate:
  "iview (evaluate t) q =
     map_option (\<lambda>n. (type (attrs n), label (attrs n),
                      if type (attrs n) = TERMINAL then None
                      else if calculatedValue (attrs n) \<noteq> None then calculatedValue (attrs n)
                      else Some (calculateNodeEMV (TreeNode (attrs n) (map evaluate (children n))))))
       (nodeAt t q)"
  by (cases "nodeAt t q") (simp_all add: iview_def attrsAt_def nodeAt_evaluate attrs_evaluate view_def)

lemma iview_evaluate_None: "iview (evaluate t) q = None \<longleftrightarrow> iview t q = None"
  by (simp add: iview_def attrsAt_def nodeAt_evaluate)

lemma iview_evaluate_Some:
  assumes "iview t q = Some (ty, l, c)"
  shows "\<exists>c'. iview (evaluate t) q = Some (ty, l, c') \<and> (c \<noteq> None \<longrightarrow> c' = c) \<and>
          (ty \<noteq> TERMINAL \<longrightarrow> c' \<noteq> None)"
proof -
  from assms obtain n where n: "nodeAt t q = Some n" "view (attrs n) = (ty, l, c)"
    by (auto simp: iview_def attrsAt_def)
  from n(2) have "type (attrs n) = ty" "label (attrs n) = l"
    "c = (if ty = TERMINAL then None else calculatedValue (attrs n))"
    by (auto simp: view_def)
  with n(1) show ?thesis
    by (simp add: iview_evaluate)
qed

lemma iview_clearValuesSolve:
  "iview (clearValuesSolve t) q = map_option (\<lambda>(ty, l, c). (ty, l, None)) (iview t q)"
  by (cases "nodeAt t q")
     (simp_all add: iview_def attrsAt_def nodeAt_clearValuesSolve attrs_clearValuesSolve view_def)

lemma descendant_valued:
  assumes "closedP t" and "leavesP t"
    and "iview t q = Some (ty, l, Some c)"
  shows "iview t (q @ r) = Some (ty', l', c') \<Longrightarrow> ty' \<noteq> TERMINAL \<Longrightarrow> c' \<noteq> None"
proof (induction r arbitrary: ty' l' c' rule: rev_induct)
  case Nil
  with assms(3) show ?case by auto
next
  case (snoc i r)
  from snoc.prems(1) have y: "iview t ((q @ r) @ [i]) = Some (ty', l', c')" by simp
  then have "iview t ((q @ r) @ [i]) \<noteq> None" by simp
  from iview_prefix [OF this] obtain x where x: "iview t (q @ r) = Some x"
    by auto
  obtain tx lx cx where xx: "x = (tx, lx, cx)" by (cases x)
  from assms(2) [unfolded leavesP_def, rule_format, OF x y] xx have "tx \<noteq> TERMINAL" by simp
  from snoc.IH [OF x [unfolded xx] this] obtain v where v: "cx = Some v" by auto
  from assms(1) [unfolded closedP_def, rule_format, OF x [unfolded xx v] y] snoc.prems(2)
  show ?case by simp
qed

lemma terminalsAreLeaves_leavesP: "terminalsAreLeaves t \<Longrightarrow> leavesP t"
proof -
  assume tl: "terminalsAreLeaves t"
  have sub: "terminalsAreLeaves t \<Longrightarrow> nodeAt t q = Some n \<Longrightarrow> terminalsAreLeaves n" for t q n
  proof (induction q arbitrary: t)
    case Nil
    then show ?case by simp
  next
    case (Cons i r)
    obtain a cs where t: "t = TreeNode a cs" by (cases t)
    from Cons.prems t have "i < length cs" "nodeAt (cs ! i) r = Some n" by (simp_all split: if_splits)
    moreover from Cons.prems(1) t \<open>i < length cs\<close> have "terminalsAreLeaves (cs ! i)"
      by (simp add: list_all_length)
    ultimately show ?case using Cons.IH by blast
  qed
  show "leavesP t"
    unfolding leavesP_def
  proof (intro allI impI)
    fix q i x y
    assume x: "iview t q = Some x" and y: "iview t (q @ [i]) = Some y"
    from x obtain n where n: "nodeAt t q = Some n" "x = view (attrs n)"
      by (auto simp: iview_def attrsAt_def)
    from y n have "iview n [i] = Some y" by (simp add: iview_append)
    then have "children n \<noteq> []" by (auto simp: iview_Cons split: if_splits)
    moreover from sub [OF tl n(1)] have "type (attrs n) = TERMINAL \<longrightarrow> children n = []"
      by (cases n) simp
    ultimately show "fst x \<noteq> TERMINAL" using n(2) by (auto simp: view_def)
  qed
qed


lemma flattenPathsFrom_heads:
  "y \<in> set (flattenPathsFrom k cs) \<Longrightarrow> \<exists>j r. y = j # r \<and> k \<le> j"
proof (induction cs arbitrary: k)
  case Nil
  then show ?case by simp
next
  case (Cons c cs)
  from Cons.prems have "y \<in> (#) k ` set (flattenPaths c) \<or> y \<in> set (flattenPathsFrom (Suc k) cs)"
    by simp
  then show ?case
  proof
    assume "y \<in> (#) k ` set (flattenPaths c)"
    then show ?thesis by auto
  next
    assume "y \<in> set (flattenPathsFrom (Suc k) cs)"
    from Cons.IH [OF this] show ?thesis by (metis Suc_leD)
  qed
qed

lemma flattenPaths_ordered:
  "sorted_wrt (\<lambda>p q. \<not> prefix p q) (flattenPaths t)"
  "sorted_wrt (\<lambda>p q. \<not> prefix p q) (flattenPathsFrom k cs)"
proof (induction t and k cs rule: flattenPaths_flattenPathsFrom.induct)
  case (1 a cs)
  have "\<forall>x \<in> set (flattenPathsFrom 0 cs). \<not> prefix x []"
    using flattenPathsFrom_heads [of _ 0 cs] by auto
  with "1.IH" show ?case by (simp add: sorted_wrt_append)
next
  case (2 k)
  show ?case by simp
next
  case (3 k c cs)
  have cross: "\<forall>x \<in> set (map ((#) k) (flattenPaths c)).
                 \<forall>y \<in> set (flattenPathsFrom (Suc k) cs). \<not> prefix x y"
  proof (intro ballI)
    fix x y
    assume "x \<in> set (map ((#) k) (flattenPaths c))" and "y \<in> set (flattenPathsFrom (Suc k) cs)"
    then obtain r j r' where "x = k # r" "y = j # r'" "Suc k \<le> j"
      using flattenPathsFrom_heads [of y "Suc k" cs] by auto
    then show "\<not> prefix x y" by simp
  qed
  from "3.IH" cross show ?case
    by (simp add: sorted_wrt_append sorted_wrt_map)
qed

lemma evaluateLog_positions:
  "map (iview (evaluate t)) (filter (pendingAt t) (flattenPaths t))
     = map entryView (evaluateLog fmt t)"
  "\<forall>pre a. k = length pre \<longrightarrow>
     map (iview (evaluate (TreeNode a (pre @ cs))))
         (filter (pendingAt (TreeNode a (pre @ cs))) (flattenPathsFrom k cs))
       = map entryView (concat (map (evaluateLog fmt) cs))"
proof (induction t and k cs rule: flattenPaths_flattenPathsFrom.induct)
  case (1 a cs)
  from "1.IH" have kids:
    "map (iview (evaluate (TreeNode a cs))) (filter (pendingAt (TreeNode a cs)) (flattenPathsFrom 0 cs))
       = map entryView (concat (map (evaluateLog fmt) cs))"
    by (metis append_Nil list.size(3))
  have top: "map (iview (evaluate (TreeNode a cs))) (filter (pendingAt (TreeNode a cs)) [[]])
       = map entryView (if type a \<noteq> TERMINAL \<and> calculatedValue a = None
          then [\<lparr>nodeLabel = label a, nodeType = type a,
                 formula = fmt (evaluate (TreeNode a cs)),
                 result = calculateNodeEMV (TreeNode a (map evaluate cs))\<rparr>]
          else [])"
    by (simp add: pendingAt_def iview_Nil view_def entryView_def)
  show ?case
    using kids top by (simp del: evaluate.simps)
next
  case (2 k)
  show ?case by simp
next
  case (3 k c cs)
  show ?case
  proof (intro allI impI)
    fix pre :: "TreeNode list" and a
    assume k: "k = length pre"
    let ?T = "TreeNode a (pre @ c # cs)"
    have p: "pendingAt ?T (k # r) = pendingAt c r" for r
      using k by (simp add: pendingAt_def iview_Cons)
    have v: "iview (evaluate ?T) (k # r) = iview (evaluate c) r" for r
      using k by (simp add: iview_Cons nth_append)
    have first: "map (iview (evaluate ?T)) (filter (pendingAt ?T) (map ((#) k) (flattenPaths c)))
          = map entryView (evaluateLog fmt c)"
      using "3.IH"(1) by (simp add: filter_map comp_def p v del: evaluate.simps)
    from "3.IH"(2) [rule_format, of "pre @ [c]" a] k
    have rest: "map (iview (evaluate ?T)) (filter (pendingAt ?T) (flattenPathsFrom (Suc k) cs))
          = map entryView (concat (map (evaluateLog fmt) cs))"
      by simp
    from first rest
    show "map (iview (evaluate ?T)) (filter (pendingAt ?T) (flattenPathsFrom k (c # cs)))
          = map entryView (concat (map (evaluateLog fmt) (c # cs)))"
      by (simp del: evaluate.simps)
  qed
qed

lemma evaluateLog_internal: "e \<in> set (evaluateLog fmt t) \<Longrightarrow> nodeType e \<noteq> TERMINAL"
  by (induction t) (auto split: if_splits)


lemma traced_same_view:
  assumes "\<And>q. iview t' q = iview t q" and "traced t lg ps"
  shows "traced t' lg ps"
proof -
  from assms(1) have "iview t' = iview t" by (rule ext)
  with assms(2) show ?thesis by (simp add: traced_def closedP_def leavesP_def)
qed

lemma traced_entry:
  assumes "traced t lg ps" and "q \<in> set ps"
  shows "\<exists>ty l c. iview t q = Some (ty, l, Some c)"
proof -
  from assms(2) have "iview t q \<in> set (map (iview t) ps)" by simp
  with assms(1) have "iview t q \<in> set (map entryView lg)" by (simp add: traced_def)
  then show ?thesis by (auto simp: entryView_def)
qed

lemma traced_solve:
  assumes tr: "traced t lg ps" and x: "nodeAt t p = Some x"
    and ty: "type (attrs x) \<noteq> TERMINAL" and cv: "calculatedValue (attrs x) = None"
    and kids: "list_all (\<lambda>c. calculatedValue (attrs c) \<noteq> None) (children x)"
  shows "traced (updateAt p solveAt t) (lg @ [entryOf fmt x]) (ps @ [p])"
proof -
  let ?t' = "updateAt p solveAt t"
  note v' = iview_updateAt_solveAt [OF x ty]
  from tr have closed: "closedP t" and leaves: "leavesP t" by (simp_all add: traced_def)
  from x ty cv have vp: "iview t p = Some (type (attrs x), label (attrs x), None)"
    by (simp add: iview_def attrsAt_def view_def)
  have below: "\<not> prefix q p" if q: "q \<in> set ps" for q
  proof
    assume "prefix q p"
    then obtain r where r: "p = q @ r" by (auto simp: prefix_def)
    from traced_entry [OF tr q] obtain ty0 l0 c0 where
      e: "iview t q = Some (ty0, l0, Some c0)" by blast
    from descendant_valued [OF closed leaves e, of r] vp r ty show False by simp
  qed
  then have notin: "p \<notin> set ps" by auto
  from tr have e0: "map (iview t) ps = map entryView lg" by (simp add: traced_def)
  have e1: "map (iview ?t') ps = map (iview t) ps"
    using notin by (intro map_cong refl) (auto simp: v')
  have e2: "iview ?t' p = entryView (entryOf fmt x)"
    by (simp add: v' entryView_def entryOf_def)
  have m: "map (iview ?t') (ps @ [p]) = map entryView (lg @ [entryOf fmt x])"
    unfolding map_append e1 e0 using e2 by simp
  have i: "\<forall>e \<in> set (lg @ [entryOf fmt x]). nodeType e \<noteq> TERMINAL"
    using tr ty by (auto simp: traced_def entryOf_def)
  have s: "sorted_wrt (\<lambda>p q. \<not> prefix p q) (ps @ [p])"
    using tr below by (simp add: traced_def sorted_wrt_append)
  have c: "closedP ?t'"
    unfolding closedP_def
  proof (intro allI impI)
    fix q i ty' l' c' y
    assume a: "iview ?t' q = Some (ty', l', Some c')" and b: "iview ?t' (q @ [i]) = Some y"
      and nt: "fst y \<noteq> TERMINAL"
    show "snd (snd y) \<noteq> None"
    proof (cases "q @ [i] = p")
      case True
      with b show ?thesis by (auto simp: v')
    next
      case False
      with b have b': "iview t (q @ [i]) = Some y" by (simp add: v')
      show ?thesis
      proof (cases "q = p")
        case True
        from b' True x have "iview x [i] = Some y" by (simp add: iview_append)
        then have "i < length (children x)" "y = view (attrs (children x ! i))"
          by (auto simp: iview_Cons iview_Nil split: if_splits)
        with kids nt show ?thesis by (auto simp: list_all_length view_def)
      next
        case False
        with a have "iview t q = Some (ty', l', Some c')" by (simp add: v')
        from closed [unfolded closedP_def, rule_format, OF this b' nt] show ?thesis .
      qed
    qed
  qed
  have l: "leavesP ?t'"
    unfolding leavesP_def
  proof (intro allI impI)
    fix q i x' y
    assume a: "iview ?t' q = Some x'" and b: "iview ?t' (q @ [i]) = Some y"
    from a vp obtain x0 where x0: "iview t q = Some x0" "fst x0 = fst x'"
      by (auto simp: v' split: if_splits)
    from b vp obtain y0 where y0: "iview t (q @ [i]) = Some y0"
      by (auto simp: v' split: if_splits)
    from leaves [unfolded leavesP_def, rule_format, OF x0(1) y0] x0(2)
    show "fst x' \<noteq> TERMINAL" by simp
  qed
  from m i s c l show ?thesis by (simp add: traced_def)
qed

lemma traced_evaluate:
  assumes tr: "traced t lg ps"
  shows "traced (evaluate t) (lg @ evaluateLog fmt t) (ps @ filter (pendingAt t) (flattenPaths t))"
proof -
  from tr have closed: "closedP t" and leaves: "leavesP t" by (simp_all add: traced_def)
  have old: "map (iview (evaluate t)) ps = map (iview t) ps"
  proof (intro map_cong refl)
    fix q assume "q \<in> set ps"
    from traced_entry [OF tr this] obtain ty0 l0 c0 where
      e: "iview t q = Some (ty0, l0, Some c0)" by blast
    from iview_evaluate_Some [OF e] e show "iview (evaluate t) q = iview t q" by auto
  qed
  from tr have e0: "map (iview t) ps = map entryView lg" by (simp add: traced_def)
  have m: "map (iview (evaluate t)) (ps @ filter (pendingAt t) (flattenPaths t))
         = map entryView (lg @ evaluateLog fmt t)"
    unfolding map_append old e0 evaluateLog_positions(1) [of t fmt] by (rule refl)
  have i: "\<forall>e \<in> set (lg @ evaluateLog fmt t). nodeType e \<noteq> TERMINAL"
    using tr evaluateLog_internal by (auto simp: traced_def)
  have cross: "\<not> prefix q p" if q: "q \<in> set ps" and p: "pendingAt t p" for q p
  proof
    assume "prefix q p"
    then obtain r where r: "p = q @ r" by (auto simp: prefix_def)
    from traced_entry [OF tr q] obtain ty0 l0 c0 where
      e: "iview t q = Some (ty0, l0, Some c0)" by blast
    from p obtain ty' l' where "iview t p = Some (ty', l', None)" "ty' \<noteq> TERMINAL"
      by (auto simp: pendingAt_def split: option.splits)
    with descendant_valued [OF closed leaves e, of r ty' l' None] r show False by simp
  qed
  have s: "sorted_wrt (\<lambda>p q. \<not> prefix p q) (ps @ filter (pendingAt t) (flattenPaths t))"
    using tr cross flattenPaths_ordered(1) [of t]
    by (simp add: traced_def sorted_wrt_append sorted_wrt_filter)
  have c: "closedP (evaluate t)"
    unfolding closedP_def
  proof (intro allI impI)
    fix q i ty' l' c' y
    assume b: "iview (evaluate t) (q @ [i]) = Some y" and nt: "fst y \<noteq> TERMINAL"
    then obtain y0 where y0: "iview t (q @ [i]) = Some y0"
      using iview_evaluate_None [of t "q @ [i]"] by auto
    obtain ty0 l0 c0 where "y0 = (ty0, l0, c0)" by (cases y0)
    with iview_evaluate_Some [of t "q @ [i]" ty0 l0 c0] y0 b nt
    show "snd (snd y) \<noteq> None" by auto
  qed
  have l: "leavesP (evaluate t)"
    unfolding leavesP_def
  proof (intro allI impI)
    fix q i x' y
    assume a: "iview (evaluate t) q = Some x'" and b: "iview (evaluate t) (q @ [i]) = Some y"
    from a obtain x0 where x0: "iview t q = Some x0"
      using iview_evaluate_None [of t q] by auto
    from b obtain y0 where y0: "iview t (q @ [i]) = Some y0"
      using iview_evaluate_None [of t "q @ [i]"] by auto
    obtain ty0 l0 c0 where xx: "x0 = (ty0, l0, c0)" by (cases x0)
    from iview_evaluate_Some [of t q ty0 l0 c0] x0 xx a have "fst x' = fst x0" by auto
    with leaves [unfolded leavesP_def, rule_format, OF x0 y0]
    show "fst x' \<noteq> TERMINAL" by simp
  qed
  from m i s c l show ?thesis by (simp add: traced_def)
qed

lemma traced_clear:
  assumes "leavesP t"
  shows "traced (clearValuesSolve t) [] []"
proof -
  have c: "closedP (clearValuesSolve t)"
    unfolding closedP_def
    by (auto simp: iview_clearValuesSolve split: option.splits)
  have l: "leavesP (clearValuesSolve t)"
    unfolding leavesP_def
  proof (intro allI impI)
    fix q i x' y
    assume a: "iview (clearValuesSolve t) q = Some x'"
      and b: "iview (clearValuesSolve t) (q @ [i]) = Some y"
    from a obtain x0 where x0: "iview t q = Some x0" "fst x0 = fst x'"
      by (auto simp: iview_clearValuesSolve)
    from b obtain y0 where y0: "iview t (q @ [i]) = Some y0"
      by (auto simp: iview_clearValuesSolve)
    from assms [unfolded leavesP_def, rule_format, OF x0(1) y0] x0(2)
    show "fst x' \<noteq> TERMINAL" by simp
  qed
  from c l show ?thesis by (simp add: traced_def)
qed

lemma handleSolve_traced:
  assumes "traced (root st) (logs st) ps"
  shows "traced (root (handleSolve fmt None b st)) (logs (handleSolve fmt None b st))
           (requestPositions b st ps)"
proof (cases b)
  case True
  let ?t = "assignTerminals (root st)"
  have tr: "traced ?t (logs st) ps"
    using assms by (rule traced_same_view [rotated]) (rule iview_assignTerminals)
  show ?thesis
  proof (cases "stepFind (root st)")
    case None
    have "traced (markOptimalPath ?t) (logs st) ps"
      using tr by (rule traced_same_view [rotated]) (rule iview_markOptimalPath)
    with None True show ?thesis by (simp add: handleSolveStep_char requestPositions_def)
  next
    case (Some px)
    obtain p x where px: "px = (p, x)" by (cases px)
    from Some px stepFind_node(1) stepFind_pending(1)
    have "nodeAt ?t p = Some x" "type (attrs x) \<noteq> TERMINAL" "calculatedValue (attrs x) = None"
      "list_all (\<lambda>c. calculatedValue (attrs c) \<noteq> None) (children x)"
      by blast+
    from traced_solve [OF tr this, of fmt] Some px True show ?thesis
      by (simp add: handleSolveStep_char requestPositions_def)
  qed
next
  case False
  let ?w = "workingRoot (solveInit st)"
  let ?l = "logs (app (solveInit st))"
  let ?ps0 = "if calculationMode st = Step then ps else []"
  have "traced ?w ?l ?ps0"
  proof (cases "calculationMode st = Step")
    case True
    with assms show ?thesis by (simp add: solveInit_def Let_def)
  next
    case no: False
    from assms have "leavesP (root st)" by (simp add: traced_def)
    from traced_clear [OF this] solveInit_fresh [OF no] no show ?thesis by simp
  qed
  from traced_evaluate [OF this, of fmt]
  have "traced (markOptimalPath (evaluate ?w)) (?l @ evaluateLog fmt ?w)
          (?ps0 @ filter (pendingAt ?w) (flattenPaths ?w))"
    by (rule traced_same_view [rotated]) (rule iview_markOptimalPath)
  with handleSolveAuto_complete [of fmt st] False show ?thesis
    by (simp add: requestPositions_def)
qed

lemma runRequests_traced:
  "traced (root st) (logs st) ps \<Longrightarrow>
   traced (root (runRequests fmt bs st)) (logs (runRequests fmt bs st))
     (loggedPositions fmt bs st ps)"
proof (induction bs arbitrary: st ps)
  case Nil
  then show ?case by simp
next
  case (Cons b bs)
  from Cons.IH [OF handleSolve_traced [OF Cons.prems, of fmt b]] show ?case by simp
qed

lemma nodeAt_in_flatten: "nodeAt t q = Some n \<Longrightarrow> n \<in> set (flattenTreePostOrder t)"
proof (induction q arbitrary: t)
  case Nil
  then show ?case by (simp add: self_in_flatten)
next
  case (Cons i r)
  from Cons.prems have i: "i < length (children t)" and sub: "nodeAt (children t ! i) r = Some n"
    by (simp_all split: if_splits)
  from Cons.IH [OF sub] i nth_mem [OF i] show ?case
    by (blast intro: child_in_flatten)
qed

text \<open>
  C6. Start in a state with an empty log in which no node that is not Terminal has a
  calculatedValue and Terminal nodes have no children (the Edit state), and serve any
  sequence of requests, manual steps and automatic replays that are not cancelled, in any
  mix. Then the log is, entry by entry, the list of the nodes at \<open>loggedPositions\<close>: each
  entry carries the type, the label and, as result, the calculatedValue of its node in
  the current tree. No logged position is equal to or below (a descendant of) a position
  logged earlier: a node is logged at most once, and strictly after all of its logged
  descendants.
\<close>

theorem log_post_ordered:
  assumes "logs st = []"
    and "\<forall>n \<in> set (flattenTreePostOrder (root st)).
           type (attrs n) \<noteq> TERMINAL \<longrightarrow> calculatedValue (attrs n) = None"
    and "terminalsAreLeaves (root st)"
  shows "map (\<lambda>p. map_option (\<lambda>n. (type (attrs n), label (attrs n), calculatedValue (attrs n)))
                    (nodeAt (root (runRequests fmt requests st)) p))
           (loggedPositions fmt requests st [])
         = map (\<lambda>e. Some (nodeType e, nodeLabel e, Some (result e)))
             (logs (runRequests fmt requests st)) \<and>
         (\<forall>i j. i < j \<longrightarrow> j < length (loggedPositions fmt requests st []) \<longrightarrow>
            \<not> prefix (loggedPositions fmt requests st [] ! i)
                     (loggedPositions fmt requests st [] ! j))"
proof -
  let ?st' = "runRequests fmt requests st"
  let ?ps = "loggedPositions fmt requests st []"
  have c: "closedP (root st)"
    unfolding closedP_def
  proof (intro allI impI)
    fix q i ty l c y
    assume "iview (root st) q = Some (ty, l, Some c)"
    then obtain n where n: "nodeAt (root st) q = Some n" "view (attrs n) = (ty, l, Some c)"
      by (auto simp: iview_def attrsAt_def)
    from n(2) have "type (attrs n) \<noteq> TERMINAL" "calculatedValue (attrs n) = Some c"
      by (auto simp: view_def split: if_splits)
    with assms(2) nodeAt_in_flatten [OF n(1)] show "snd (snd y) \<noteq> None" by auto
  qed
  from c terminalsAreLeaves_leavesP [OF assms(3)] assms(1)
  have "traced (root st) (logs st) []" by (simp add: traced_def)
  from runRequests_traced [OF this, of fmt requests]
  have tr: "traced (root ?st') (logs ?st') ?ps" .
  have "map (\<lambda>p. map_option (\<lambda>n. (type (attrs n), label (attrs n), calculatedValue (attrs n)))
                         (nodeAt (root ?st') p)) ?ps
        = map (iview (root ?st')) ?ps"
  proof (intro map_cong refl)
    fix q assume "q \<in> set ?ps"
    from traced_entry [OF tr this] obtain ty0 l0 c0 where
      e: "iview (root ?st') q = Some (ty0, l0, Some c0)" by blast
    then obtain n where n: "nodeAt (root ?st') q = Some n"
        "view (attrs n) = (ty0, l0, Some c0)"
      by (auto simp: iview_def attrsAt_def)
    from n(2) have "type (attrs n) \<noteq> TERMINAL" by (auto simp: view_def split: if_splits)
    with n show "map_option (\<lambda>n. (type (attrs n), label (attrs n), calculatedValue (attrs n)))
                   (nodeAt (root ?st') q) = iview (root ?st') q"
      by (simp add: iview_def attrsAt_def view_def)
  qed
  also have "\<dots> = map entryView (logs ?st')" using tr by (simp add: traced_def)
  finally have link: "map (\<lambda>p. map_option (\<lambda>n. (type (attrs n), label (attrs n), calculatedValue (attrs n)))
                         (nodeAt (root ?st') p)) ?ps
               = map (\<lambda>e. Some (nodeType e, nodeLabel e, Some (result e))) (logs ?st')"
    by (simp add: entryView_def [abs_def])
  from tr have "sorted_wrt (\<lambda>p q. \<not> prefix p q) ?ps" by (simp add: traced_def)
  then have "\<forall>i j. i < j \<longrightarrow> j < length ?ps \<longrightarrow> \<not> prefix (?ps ! i) (?ps ! j)"
    by (simp add: sorted_wrt_iff_nth_less)
  with link show ?thesis by blast
qed

theorem log_post_ordered_witness:
  "logs (editState scenarioA) = [] \<and>
   terminalsAreLeaves (root (editState scenarioA)) \<and>
   map (\<lambda>n. (type (attrs n), calculatedValue (attrs n)))
     (flattenTreePostOrder (root (editState scenarioA)))
     = [(TERMINAL, None), (TERMINAL, None), (CHANCE, None),
        (TERMINAL, None), (CHANCE, None), (DECISION, None)] \<and>
   loggedPositions noFormula [True, False] (editState scenarioA) [] = [[0], [Suc 0], []] \<and>
   map (\<lambda>p. map_option (\<lambda>n. (type (attrs n), label (attrs n), calculatedValue (attrs n)))
              (nodeAt (root (runRequests noFormula [True, False] (editState scenarioA))) p))
     [[0], [Suc 0], []]
     = map (\<lambda>e. Some (nodeType e, nodeLabel e, Some (result e)))
         (logs (runRequests noFormula [True, False] (editState scenarioA))) \<and>
   map nodeLabel (logs (runRequests noFormula [True, False] (editState scenarioA)))
     = [''A'', ''B'', ''root''] \<and>
   \<not> prefix [0] [Suc 0] \<and> \<not> prefix [0::nat] [] \<and> \<not> prefix [Suc 0] []"
proof -
  let ?st = "editState scenarioA"
  have h1: "logs ?st = []"
    and h2: "\<forall>n \<in> set (flattenTreePostOrder (root ?st)).
           type (attrs n) \<noteq> TERMINAL \<longrightarrow> calculatedValue (attrs n) = None"
    and h3: "terminalsAreLeaves (root ?st)"
    and f: "map (\<lambda>n. (type (attrs n), calculatedValue (attrs n))) (flattenTreePostOrder (root ?st))
     = [(TERMINAL, None), (TERMINAL, None), (CHANCE, None),
        (TERMINAL, None), (CHANCE, None), (DECISION, None)]"
    by (simp_all add: editState_def scenarioA_def mkNode_def)
  have ps: "loggedPositions noFormula [True, False] ?st [] = [[0], [Suc 0], []]"
    by (simp add: requestPositions_def pendingAt_def iview_def attrsAt_def view_def
          run_defs scenarioA_def)
  from log_post_ordered [OF h1 h2 h3, of noFormula "[True, False]"]
  have link: "map (\<lambda>p. map_option (\<lambda>n. (type (attrs n), label (attrs n), calculatedValue (attrs n)))
              (nodeAt (root (runRequests noFormula [True, False] ?st)) p))
     [[0], [Suc 0], []]
     = map (\<lambda>e. Some (nodeType e, nodeLabel e, Some (result e)))
         (logs (runRequests noFormula [True, False] ?st))"
    unfolding ps by blast
  have l: "map nodeLabel (logs (runRequests noFormula [True, False] ?st)) = [''A'', ''B'', ''root'']"
    by (simp add: run_defs scenarioA_def)
  from h1 h3 f ps link l show ?thesis by simp
qed

section \<open>Requests keep the values consistent\<close>

lemma full_TreeNode:
  "full (TreeNode a cs) \<longleftrightarrow> calculatedValue a \<noteq> None \<and> (\<forall>c \<in> set cs. full c)"
  by (auto simp: full_def)

lemma full_top: "full t \<Longrightarrow> calculatedValue (attrs t) \<noteq> None"
  using self_in_flatten [of t] by (auto simp: full_def)

lemma sound_full:
  "sound t \<Longrightarrow> calculatedValue (attrs t) \<noteq> None \<Longrightarrow> full t"
proof (induction t)
  case (TreeNode a cs)
  have "full c" if c: "c \<in> set cs" for c
  proof -
    from TreeNode.prems c have "sound c" "calculatedValue (attrs c) \<noteq> None"
      by (auto simp: list_all_iff split: if_splits)
    from TreeNode.IH [OF c this] show ?thesis .
  qed
  with TreeNode.prems(2) show ?case by (simp add: full_TreeNode)
qed

lemma stepCalculate_mono:
  "fst s \<Longrightarrow> fst (snd (stepCalculate fmt t s))"
  "fst s \<Longrightarrow> fst (snd (stepCalculateChildren fmt cs s))"
  by (induction fmt t s and fmt cs s rule: stepCalculate_stepCalculateChildren.induct)
     (auto simp: Let_def split: prod.splits)

lemma stepCalculate_sound:
  "sound t \<Longrightarrow> sound (fst (stepCalculate fmt t s))"
  "list_all sound cs \<Longrightarrow> list_all sound (fst (stepCalculateChildren fmt cs s))"
proof (induction fmt t s and fmt cs s rule: stepCalculate_stepCalculateChildren.induct)
  case (1 fmt a cs s)
  show ?case
  proof (cases "calculatedValue a \<noteq> None \<or> type a = TERMINAL")
    case True
    with "1.prems" show ?thesis by auto
  next
    case False
    obtain cs' f lg where r: "stepCalculateChildren fmt cs s = (cs', f, lg)"
      by (cases "stepCalculateChildren fmt cs s") auto
    from "1.IH" False "1.prems" r have kids: "list_all sound cs'" by simp
    show ?thesis
    proof (cases "list_all (\<lambda>c. calculatedValue (attrs c) \<noteq> None) cs' \<and> \<not> f")
      case True
      then show ?thesis
        using False r kids calculateNodeEMV_decision [of "TreeNode a cs'"]
        by (simp add: Let_def withCalculatedValue_def)
    next
      case no: False
      with False r kids show ?thesis by auto
    qed
  qed
next
  case (2 fmt s)
  show ?case by simp
next
  case (3 fmt c cs s)
  obtain c' s' where c': "stepCalculate fmt c s = (c', s')"
    by (cases "stepCalculate fmt c s") auto
  obtain cs' s'' where cs': "stepCalculateChildren fmt cs s' = (cs', s'')"
    by (cases "stepCalculateChildren fmt cs s'") auto
  from "3.IH"(1) "3.prems" c' have "sound c'" by simp
  moreover from "3.IH"(2) [OF c' [symmetric]] "3.prems" cs' have "list_all sound cs'" by simp
  ultimately show ?case using c' cs' by simp
qed

lemma stepCalculate_full:
  "sound t \<Longrightarrow> \<not> fst (snd (stepCalculate fmt t s)) \<Longrightarrow> full (fst (stepCalculate fmt t s))"
  "list_all sound cs \<Longrightarrow> \<not> fst (snd (stepCalculateChildren fmt cs s)) \<Longrightarrow>
     \<forall>c \<in> set (fst (stepCalculateChildren fmt cs s)). full c"
proof (induction fmt t s and fmt cs s rule: stepCalculate_stepCalculateChildren.induct)
  case (1 fmt a cs s)
  show ?case
  proof (cases "calculatedValue a \<noteq> None")
    case True
    have "full (TreeNode a cs)"
      by (rule sound_full [OF "1.prems"(1)]) (use True in simp)
    with True show ?thesis by simp
  next
    case False
    show ?thesis
    proof (cases "type a = TERMINAL")
      case True
      with False "1.prems"(1) show ?thesis by (simp add: full_TreeNode)
    next
      case nt: False
      obtain cs' f lg where r: "stepCalculateChildren fmt cs s = (cs', f, lg)"
        by (cases "stepCalculateChildren fmt cs s") auto
      from "1.prems"(2) False nt r have nf: "\<not> f"
        by (auto simp: Let_def split: if_splits)
      from "1.prems"(1) nt have "list_all sound cs" by simp
      from "1.IH" [OF _ _ this] False nt r nf have "\<forall>c \<in> set cs'. full c" by simp
      then have "list_all (\<lambda>c. calculatedValue (attrs c) \<noteq> None) cs'"
        by (auto simp: list_all_iff dest: full_top)
      with "1.prems"(2) False nt r nf show ?thesis by (simp add: Let_def)
    qed
  qed
next
  case (2 fmt s)
  show ?case by simp
next
  case (3 fmt c cs s)
  obtain c' s' where c': "stepCalculate fmt c s = (c', s')"
    by (cases "stepCalculate fmt c s") auto
  obtain cs' s'' where cs': "stepCalculateChildren fmt cs s' = (cs', s'')"
    by (cases "stepCalculateChildren fmt cs s'") auto
  from "3.prems"(2) c' cs' have n2: "\<not> fst s''" by simp
  with stepCalculate_mono(2) [of s' fmt cs] cs' have n1: "\<not> fst s'" by auto
  from "3.IH"(1) "3.prems"(1) c' n1 have "full c'" by simp
  moreover from "3.IH"(2) [OF c' [symmetric]] "3.prems"(1) cs' n2 have "\<forall>c \<in> set cs'. full c"
    by simp
  ultimately show ?case using c' cs' by simp
qed

lemma evaluate_kept:
  "sound t \<Longrightarrow> calculatedValue (attrs t) \<noteq> None \<Longrightarrow>
     calculatedValue (attrs (evaluate t)) = calculatedValue (attrs t)"
  by (cases t) (auto split: if_splits)

lemma cv_list:
  "list_all (\<lambda>c. calculatedValue (attrs c) \<noteq> None) xs
     \<longleftrightarrow> None \<notin> set (map (\<lambda>c. calculatedValue (attrs c)) xs)"
  by (induction xs) auto

lemma nullish_list:
  "map (\<lambda>c. nullish (calculatedValue (attrs c)) 0) xs
     = map (\<lambda>v. nullish v (0::real)) (map (\<lambda>c. calculatedValue (attrs c)) xs)"
  by simp

lemma sound_cong:
  assumes "sound (TreeNode a cs)" and "list_all sound cs'"
    and "map (\<lambda>c. calculatedValue (attrs c)) cs' = map (\<lambda>c. calculatedValue (attrs c)) cs"
  shows "sound (TreeNode a cs')"
proof -
  from assms(3) have len: "length cs' = length cs" by (rule map_eq_imp_length_eq)
  then have e: "cs' = [] \<longleftrightarrow> cs = []" by auto
  show ?thesis
  proof (cases "type a = TERMINAL")
    case True
    with assms(1) have "cs = []" by simp
    with e have "cs' = []" by simp
    with assms(1) True show ?thesis by simp
  next
    case False
    have A: "list_all (\<lambda>c. calculatedValue (attrs c) \<noteq> None) cs'
           = list_all (\<lambda>c. calculatedValue (attrs c) \<noteq> None) cs"
      unfolding cv_list assms(3) ..
    have B: "map (\<lambda>c. nullish (calculatedValue (attrs c)) 0) cs'
           = map (\<lambda>c. nullish (calculatedValue (attrs c)) 0) cs"
      unfolding nullish_list assms(3) ..
    from assms(1) False have old: "calculatedValue a \<noteq> None \<longrightarrow>
              list_all (\<lambda>c. calculatedValue (attrs c) \<noteq> None) cs \<and>
              (type a = DECISION \<and> cs \<noteq> [] \<longrightarrow>
                 calculatedValue a
                   = Some (Max (set (map (\<lambda>c. nullish (calculatedValue (attrs c)) 0) cs))))"
      by simp
    have "calculatedValue a \<noteq> None \<longrightarrow>
              list_all (\<lambda>c. calculatedValue (attrs c) \<noteq> None) cs' \<and>
              (type a = DECISION \<and> cs' \<noteq> [] \<longrightarrow>
                 calculatedValue a
                   = Some (Max (set (map (\<lambda>c. nullish (calculatedValue (attrs c)) 0) cs'))))"
      unfolding A B e by (rule old)
    with assms(2) False show ?thesis by simp
  qed
qed

lemma evaluate_sound: "sound t \<Longrightarrow> sound (evaluate t) \<and> full (evaluate t)"
proof (induction t)
  case (TreeNode a cs)
  from TreeNode.prems have sc: "\<And>c. c \<in> set cs \<Longrightarrow> sound c" by (simp add: list_all_iff)
  with TreeNode.IH have kids: "\<And>c. c \<in> set cs \<Longrightarrow> sound (evaluate c) \<and> full (evaluate c)"
    by blast
  then have ks: "list_all sound (map evaluate cs)" and kfull: "\<forall>c \<in> set (map evaluate cs). full c"
    by (simp_all add: list_all_iff)
  from kfull have kf: "list_all (\<lambda>c. calculatedValue (attrs c) \<noteq> None) (map evaluate cs)"
    unfolding list_all_iff using full_top by blast
  show ?case
  proof (cases "type a = TERMINAL")
    case True
    with TreeNode.prems show ?thesis by (auto simp: full_TreeNode)
  next
    case nt: False
    show ?thesis
    proof (cases "calculatedValue a \<noteq> None")
      case True
      with TreeNode.prems nt have all: "\<And>c. c \<in> set cs \<Longrightarrow> calculatedValue (attrs c) \<noteq> None"
        by (simp add: list_all_iff)
      have same: "map (\<lambda>c. calculatedValue (attrs c)) (map evaluate cs)
                = map (\<lambda>c. calculatedValue (attrs c)) cs"
        using all sc by (simp add: evaluate_kept)
      have e: "evaluate (TreeNode a cs) = TreeNode a (map evaluate cs)"
        using nt True by simp
      have "sound (TreeNode a (map evaluate cs))"
        by (rule sound_cong [OF TreeNode.prems ks same])
      moreover have "full (TreeNode a (map evaluate cs))"
        using True kfull by (simp add: full_TreeNode)
      ultimately show ?thesis unfolding e by blast
    next
      case False
      let ?v = "calculateNodeEMV (TreeNode a (map evaluate cs))"
      have e: "evaluate (TreeNode a cs)
             = TreeNode (a\<lparr>calculatedValue := Some ?v\<rparr>) (map evaluate cs)"
        using nt False by simp
      have dec: "type a = DECISION \<Longrightarrow> cs \<noteq> [] \<Longrightarrow>
          ?v = Max (set (map (\<lambda>c. nullish (calculatedValue (attrs c)) 0) (map evaluate cs)))"
        using calculateNodeEMV_decision [of "TreeNode a (map evaluate cs)"] by simp
      have "sound (TreeNode (a\<lparr>calculatedValue := Some ?v\<rparr>) (map evaluate cs))"
        using nt ks kf dec by (simp del: map_map)
      moreover have "full (TreeNode (a\<lparr>calculatedValue := Some ?v\<rparr>) (map evaluate cs))"
        using kfull by (simp add: full_TreeNode)
      ultimately show ?thesis unfolding e by blast
    qed
  qed
qed

lemma clearValuesSolve_sound: "sound t \<Longrightarrow> sound (clearValuesSolve t)"
proof (induction t)
  case (TreeNode a cs)
  then have "list_all sound (map clearValuesSolve cs)" by (simp add: list_all_iff)
  with TreeNode.prems show ?case by (cases "type a = TERMINAL") simp_all
qed

lemma sound_withIsOptimal: "sound (withIsOptimal b x) = sound x"
  by (cases x) (simp add: withIsOptimal_def)

lemma cv_children_markOptimalPath:
  "map (\<lambda>c. calculatedValue (attrs c)) (children (markOptimalPath t))
     = map (\<lambda>c. calculatedValue (attrs c)) (children t)"
  by (rule nth_equalityI) (simp_all add: children_markOptimalPath_nth split: option.splits)

lemma markOptimalPath_sound: "sound t \<Longrightarrow> sound (markOptimalPath t)"
proof (induction t)
  case (TreeNode a cs)
  from TreeNode have kids: "\<And>c. c \<in> set cs \<Longrightarrow> sound (markOptimalPath c)"
    by (simp add: list_all_iff)
  have all: "list_all sound (children (markOptimalPath (TreeNode a cs)))"
    unfolding list_all_length
  proof (intro allI impI)
    fix i assume "i < length (children (markOptimalPath (TreeNode a cs)))"
    then have i: "i < length (children (TreeNode a cs))"
      by (simp only: length_children_markOptimalPath)
    then have "sound (markOptimalPath (cs ! i))" using kids by simp
    moreover from i TreeNode.prems have "sound (cs ! i)" by (simp add: list_all_length)
    ultimately show "sound (children (markOptimalPath (TreeNode a cs)) ! i)"
      using i by (simp add: children_markOptimalPath_nth sound_withIsOptimal split: option.splits
            del: markOptimalPath.simps)
  qed
  have "map (\<lambda>c. calculatedValue (attrs c)) (children (markOptimalPath (TreeNode a cs)))
      = map (\<lambda>c. calculatedValue (attrs c)) cs"
    using cv_children_markOptimalPath [of "TreeNode a cs"] by (simp only: TreeNode.sel)
  then have s: "sound (TreeNode a (children (markOptimalPath (TreeNode a cs))))"
    by (rule sound_cong [OF TreeNode.prems all])
  have "attrs (markOptimalPath (TreeNode a cs)) = a"
    by (simp only: attrs_markOptimalPath TreeNode.sel)
  then have eq: "markOptimalPath (TreeNode a cs)
        = TreeNode a (children (markOptimalPath (TreeNode a cs)))"
    by (metis TreeNode.collapse)
  show ?case by (subst eq) (rule s)
qed

lemma sound_leaves: "sound t \<Longrightarrow> terminalsAreLeaves t"
proof (induction t)
  case (TreeNode a cs)
  then have "list_all terminalsAreLeaves cs" by (simp add: list_all_iff)
  with TreeNode.prems show ?case by (cases "type a = TERMINAL") simp_all
qed

lemma sound_computed:
  "sound t \<Longrightarrow> full t \<Longrightarrow> \<forall>n \<in> set (flattenTreePostOrder t). computed n"
proof (induction t)
  case (TreeNode a cs)
  from TreeNode.prems have "\<And>c. c \<in> set cs \<Longrightarrow> sound c \<and> full c"
    by (simp add: list_all_iff full_TreeNode)
  with TreeNode.IH have "\<forall>c \<in> set cs. \<forall>n \<in> set (flattenTreePostOrder c). computed n" by blast
  moreover from TreeNode.prems have "computed (TreeNode a cs)"
    by (cases "type a = TERMINAL") (simp_all add: computed_def full_TreeNode)
  ultimately show ?case by simp
qed

text \<open>
  Every request, a manual step or a replay that is not cancelled, keeps the values
  consistent, and when it ends in the Solved state every Decision node with children has
  an optimal child.
\<close>

lemma handleSolve_sound:
  assumes "sound (root st)"
  shows "sound (root (handleSolve fmt None b st)) \<and>
         (calculationMode (handleSolve fmt None b st) = Auto \<longrightarrow>
            (\<forall>d \<in> set (flattenTreePostOrder (root (handleSolve fmt None b st))). hasOptimalChild d))"
proof (cases b)
  case True
  obtain t' f lg where r: "stepCalculate fmt (root st) (False, logs st) = (t', f, lg)"
    by (cases "stepCalculate fmt (root st) (False, logs st)") auto
  from stepCalculate_sound(1) [OF assms, of fmt "(False, logs st)"] r have s: "sound t'" by simp
  show ?thesis
  proof (cases f)
    case True
    with \<open>b\<close> r s show ?thesis by (simp add: handleSolve_def handleSolveStep_def)
  next
    case False
    with stepCalculate_full(1) [OF assms, of fmt "(False, logs st)"] r have "full t'" by simp
    from markOptimalPath_hasOptimalChild [OF sound_leaves [OF s] sound_computed [OF s this]]
      markOptimalPath_sound [OF s] False \<open>b\<close> r
    show ?thesis by (simp add: handleSolve_def handleSolveStep_def)
  qed
next
  case False
  let ?w = "workingRoot (solveInit st)"
  have w: "sound ?w"
    using assms by (simp add: solveInit_def Let_def clearValuesSolve_sound)
  from handleSolveAuto_complete [of fmt st]
  have rt: "root (handleSolve fmt None False st) = markOptimalPath (evaluate ?w)" by simp
  from evaluate_sound [OF w] have e: "sound (evaluate ?w)" "full (evaluate ?w)" by simp_all
  from markOptimalPath_hasOptimalChild [OF sound_leaves [OF e(1)] sound_computed [OF e]]
    markOptimalPath_sound [OF e(1)] rt False
  show ?thesis by simp
qed

text \<open>
  The same for a replay that is cancelled: every tree that the loop publishes is
  consistent. A node is computed only after its children, so they all have a
  calculatedValue then.
\<close>

lemma sound_nodeAt: "sound t \<Longrightarrow> nodeAt t q = Some x \<Longrightarrow> sound x"
proof (induction q arbitrary: t)
  case Nil
  then show ?case by simp
next
  case (Cons i q)
  obtain a cs where t: "t = TreeNode a cs" by (cases t)
  from Cons.prems t have i: "i < length cs" and sub: "nodeAt (cs ! i) q = Some x"
    by (simp_all split: if_splits)
  from Cons.prems(1) t i have "sound (cs ! i)" by (simp add: list_all_length)
  from Cons.IH [OF this sub] show ?case .
qed

lemma attrs_updateAt_Cons: "attrs (updateAt (i # p) f t) = attrs t"
  by simp

lemma sound_updateAt:
  "sound t \<Longrightarrow> nodeAt t q = Some x \<Longrightarrow> sound x' \<Longrightarrow>
   (calculatedValue (attrs x) \<noteq> None \<longrightarrow> calculatedValue (attrs x') = calculatedValue (attrs x)) \<Longrightarrow>
   sound (updateAt q (\<lambda>_. x') t)"
proof (induction q arbitrary: t)
  case Nil
  then show ?case by simp
next
  case (Cons i q)
  obtain a cs where t: "t = TreeNode a cs" by (cases t)
  from Cons.prems t have i: "i < length cs" and sub: "nodeAt (cs ! i) q = Some x"
    by (simp_all split: if_splits)
  from Cons.prems(1) t have all: "list_all sound cs" by simp
  with i have sc: "sound (cs ! i)" by (simp add: list_all_length)
  let ?c' = "updateAt q (\<lambda>_. x') (cs ! i)"
  from Cons.IH [OF sc sub Cons.prems(3,4)] have sc': "sound ?c'" .
  have keep: "calculatedValue (attrs (cs ! i)) \<noteq> None \<longrightarrow>
      calculatedValue (attrs ?c') = calculatedValue (attrs (cs ! i))"
  proof (cases q)
    case Nil
    with sub Cons.prems(4) show ?thesis by simp
  next
    case (Cons j r)
    then show ?thesis by simp
  qed
  have all': "list_all sound (cs[i := ?c'])"
    using all sc' i unfolding list_all_length by (simp add: nth_list_update)
  have u: "updateAt (i # q) (\<lambda>_. x') t = TreeNode a (cs[i := ?c'])"
    using t i by simp
  from Cons.prems(1) t i have nt: "type a \<noteq> TERMINAL" by (auto split: if_splits)
  show ?case
  proof (cases "calculatedValue a = None")
    case True
    with all' nt show ?thesis unfolding u by simp
  next
    case False
    with Cons.prems(1) t nt have "list_all (\<lambda>c. calculatedValue (attrs c) \<noteq> None) cs" by simp
    with i have "calculatedValue (attrs (cs ! i)) \<noteq> None" by (simp add: list_all_length)
    with keep have "calculatedValue (attrs ?c') = calculatedValue (attrs (cs ! i))" by simp
    then have "map (\<lambda>c. calculatedValue (attrs c)) (cs[i := ?c'])
        = map (\<lambda>c. calculatedValue (attrs c)) cs"
      using i by (simp add: map_update list_update_same_conv)
    from sound_cong [OF Cons.prems(1) [unfolded t] all' this] show ?thesis unfolding u .
  qed
qed

lemma hole_sound:
  assumes "hole q C" and "sound (C x)" and "sound x'"
    and "calculatedValue (attrs x) \<noteq> None \<longrightarrow> calculatedValue (attrs x') = calculatedValue (attrs x)"
  shows "sound (C x')"
proof -
  from assms(1) have n: "nodeAt (C x) q = Some x" and u: "updateAt q (\<lambda>_. x') (C x) = C x'"
    by (simp_all add: hole_def)
  from sound_updateAt [OF assms(2) n assms(3,4)] show ?thesis unfolding u .
qed

lemma hole_sub: "hole q C \<Longrightarrow> sound (C x) \<Longrightarrow> sound x"
  using sound_nodeAt [of "C x" q x] by (simp add: hole_def)

lemma solveNode_aborted: "aborted r \<Longrightarrow> solveNode fmt c p r = r"
  by (simp add: solveNode_def)

lemma fold_solveNode_aborted: "aborted r \<Longrightarrow> fold (solveNode fmt c) ps r = r"
  by (induction ps) (simp_all add: solveNode_aborted)

lemma solveNode_at_any:
  assumes "hole q C" and "workingRoot r = C x" and "\<not> aborted r"
  shows "solveNode fmt c q r =
     (if type (attrs x) = TERMINAL then
        r\<lparr>workingRoot := C (withCalculatedValue (value_n (attrs x)) x)\<rparr>
      else if calculatedValue (attrs x) \<noteq> None then r
      else if c = Some (delays r) then r\<lparr>delays := Suc (delays r), aborted := True\<rparr>
      else
        r\<lparr>app := (app r)\<lparr>logs := logs (app r) @
                    [\<lparr>nodeLabel = label (attrs x), nodeType = type (attrs x),
                      formula = fmt (withCalculatedValue (Some (calculateNodeEMV x)) x),
                      result = calculateNodeEMV x\<rparr>],
                  root := C (withCalculatedValue (Some (calculateNodeEMV x)) x)\<rparr>,
          workingRoot := C (withCalculatedValue (Some (calculateNodeEMV x)) x),
          delays := Suc (delays r)\<rparr>)"
  using assms by (simp add: solveNode_def hole_def Let_def)

lemma settled_node:
  assumes h: "hole q C" and w: "workingRoot r = C x" and s: "sound (C x)"
    and p: "sound (root (app r))" and k: "\<forall>c \<in> set (children x). full c"
    and old: "calculatedValue (attrs t) \<noteq> None \<longrightarrow>
                calculatedValue (attrs x) = calculatedValue (attrs t)"
  shows "settled C t r (solveNode fmt c q r)"
proof (cases "aborted r")
  case True
  with p show ?thesis by (simp add: settled_def solveNode_aborted)
next
  case na: False
  note at = solveNode_at_any [OF h w na, of fmt c]
  from hole_sub [OF h s] have sx: "sound x" .
  obtain a cs where x: "x = TreeNode a cs" by (cases x)
  show ?thesis
  proof (cases "type (attrs x) = TERMINAL")
    case True
    let ?x' = "withCalculatedValue (value_n (attrs x)) x"
    from sx True x have v: "cs = []" "value_n a \<noteq> None"
      "calculatedValue a = None \<or> calculatedValue a = value_n a" by simp_all
    have sx': "sound ?x'" and fx': "full ?x'"
      using True x v by (simp_all add: withCalculatedValue_def full_TreeNode)
    have kept: "calculatedValue (attrs x) \<noteq> None \<longrightarrow>
        calculatedValue (attrs ?x') = calculatedValue (attrs x)"
      using x v by (auto simp: withCalculatedValue_def)
    from hole_sound [OF h s sx' kept] have "sound (C ?x')" .
    with True p na fx' kept old show ?thesis
      unfolding at settled_def by auto
  next
    case nt: False
    show ?thesis
    proof (cases "calculatedValue (attrs x) \<noteq> None")
      case True
      from sound_full [OF sx True] have "full x" .
      with nt True p na w s old show ?thesis
        unfolding at settled_def by auto
    next
      case none: False
      show ?thesis
      proof (cases "c = Some (delays r)")
        case True
        with nt none p na show ?thesis
          unfolding at settled_def by simp
      next
        case False
        let ?x' = "withCalculatedValue (Some (calculateNodeEMV x)) x"
        from k have kc: "list_all (\<lambda>c. calculatedValue (attrs c) \<noteq> None) (children x)"
          unfolding list_all_iff using full_top by blast
        from sx x have kids: "list_all sound cs" by simp
        have sx': "sound ?x'"
          using nt x kids kc calculateNodeEMV_decision [of x]
          by (simp add: withCalculatedValue_def)
        have fx': "full ?x'"
          using k x by (simp add: withCalculatedValue_def full_TreeNode)
        from none have kept: "calculatedValue (attrs x) \<noteq> None \<longrightarrow>
            calculatedValue (attrs ?x') = calculatedValue (attrs x)" by simp
        from hole_sound [OF h s sx' kept] have sC: "sound (C ?x')" .
        from none old have "calculatedValue (attrs t) = None" by auto
        with nt none False na sC fx' show ?thesis
          unfolding at settled_def by auto
      qed
    qed
  qed
qed

lemma solve_subtree_sound:
  "hole q C \<Longrightarrow> workingRoot r = C t \<Longrightarrow> sound (C t) \<Longrightarrow> sound (root (app r)) \<Longrightarrow>
     settled C t r (fold (solveNode fmt c) (map ((@) q) (flattenPaths t)) r)"
proof (induction t arbitrary: q C r)
  case (TreeNode a cs)
  have kids: "set todo \<subseteq> set cs \<Longrightarrow> workingRoot r1 = C (TreeNode a (pre @ todo)) \<Longrightarrow>
     sound (C (TreeNode a (pre @ todo))) \<Longrightarrow> sound (root (app r1)) \<Longrightarrow>
     \<forall>c \<in> set pre. full c \<Longrightarrow>
     sound (root (app (fold (solveNode fmt c) (map ((@) q) (flattenPathsFrom (length pre) todo)) r1))) \<and>
     (aborted r1 \<longrightarrow>
        fold (solveNode fmt c) (map ((@) q) (flattenPathsFrom (length pre) todo)) r1 = r1) \<and>
     (\<not> aborted (fold (solveNode fmt c) (map ((@) q) (flattenPathsFrom (length pre) todo)) r1) \<longrightarrow>
        (\<exists>done. workingRoot (fold (solveNode fmt c)
                     (map ((@) q) (flattenPathsFrom (length pre) todo)) r1)
                  = C (TreeNode a done) \<and>
                sound (C (TreeNode a done)) \<and> (\<forall>c \<in> set done. full c)))"
    for todo pre r1
  proof (induction todo arbitrary: pre r1)
    case Nil
    then show ?case by auto
  next
    case (Cons c0 rest)
    let ?C = "\<lambda>x. C (TreeNode a (pre @ x # rest))"
    let ?r2 = "fold (solveNode fmt c) (map ((@) (q @ [length pre])) (flattenPaths c0)) r1"
    let ?r3 = "fold (solveNode fmt c) (map ((@) q) (flattenPathsFrom (Suc (length pre)) rest)) ?r2"
    have "map ((@) q) (flattenPathsFrom (length pre) (c0 # rest))
        = map ((@) (q @ [length pre])) (flattenPaths c0)
          @ map ((@) q) (flattenPathsFrom (Suc (length pre)) rest)"
      by (simp add: comp_def)
    then have paths: "fold (solveNode fmt c)
          (map ((@) q) (flattenPathsFrom (length pre) (c0 # rest))) r1 = ?r3"
      by (simp only: fold_append comp_def)
    have h: "hole (q @ [length pre]) ?C"
      using TreeNode.prems(1) by (rule hole_child)
    from Cons.prems have c0: "c0 \<in> set cs" and sub: "set rest \<subseteq> set cs" by simp_all
    from Cons.prems have w1: "workingRoot r1 = ?C c0" and s1: "sound (?C c0)" by simp_all
    from TreeNode.IH [OF c0 h w1 s1 Cons.prems(4)]
    have st: "settled ?C c0 r1 ?r2" .
    show ?case
    proof (cases "aborted ?r2")
      case True
      then have e3: "?r3 = ?r2" by (rule fold_solveNode_aborted)
      from st have "sound (root (app ?r2))" "aborted r1 \<longrightarrow> ?r2 = r1"
        unfolding settled_def by simp_all
      with True show ?thesis unfolding paths e3 by blast
    next
      case False
      with st obtain c' where c': "workingRoot ?r2 = ?C c'" "sound (?C c')" "full c'"
        unfolding settled_def by blast
      from st have p2: "sound (root (app ?r2))" and ab: "aborted r1 \<longrightarrow> ?r2 = r1"
        unfolding settled_def by simp_all
      from c'(1) have w2: "workingRoot ?r2 = C (TreeNode a ((pre @ [c']) @ rest))" by simp
      from c'(2) have s2: "sound (C (TreeNode a ((pre @ [c']) @ rest)))" by simp
      from Cons.prems(5) c'(3) have f2: "\<forall>c \<in> set (pre @ [c']). full c" by simp
      from Cons.IH [OF sub w2 s2 p2 f2]
      have r3: "sound (root (app ?r3))"
        "\<not> aborted ?r3 \<longrightarrow>
           (\<exists>done. workingRoot ?r3 = C (TreeNode a done) \<and>
                   sound (C (TreeNode a done)) \<and> (\<forall>c \<in> set done. full c))"
        by simp_all
      from False ab have "\<not> aborted r1" by auto
      with r3 show ?thesis unfolding paths by simp
    qed
  qed
  let ?r1 = "fold (solveNode fmt c) (map ((@) q) (flattenPathsFrom 0 cs)) r"
  from kids [where todo = cs and pre = "[]" and ?r1.0 = r] TreeNode.prems
  have r1: "sound (root (app ?r1))" "aborted r \<longrightarrow> ?r1 = r"
    "\<not> aborted ?r1 \<longrightarrow>
       (\<exists>done. workingRoot ?r1 = C (TreeNode a done) \<and>
               sound (C (TreeNode a done)) \<and> (\<forall>c \<in> set done. full c))"
    by simp_all
  have last: "fold (solveNode fmt c) (map ((@) q) (flattenPaths (TreeNode a cs))) r
        = solveNode fmt c q ?r1"
    by simp
  show ?case
  proof (cases "aborted ?r1")
    case True
    with r1(1,2) show ?thesis
      unfolding last settled_def by (auto simp: solveNode_aborted)
  next
    case False
    with r1(3) obtain cs' where d: "workingRoot ?r1 = C (TreeNode a cs')"
       "sound (C (TreeNode a cs'))" "\<forall>c \<in> set cs'. full c" by blast
    have "settled C (TreeNode a cs) ?r1 (solveNode fmt c q ?r1)"
      by (rule settled_node [OF TreeNode.prems(1) d(1) d(2) r1(1)]) (use d(3) in simp_all)
    moreover from False r1(2) have "\<not> aborted r" by auto
    ultimately show ?thesis unfolding last settled_def by simp
  qed
qed

lemma solveLoop_sound:
  assumes "sound (workingRoot r)" and "sound (root (app r))" and "\<not> aborted r"
  shows "sound (root (app (solveLoop fmt c r))) \<and>
         (\<not> aborted (solveLoop fmt c r) \<longrightarrow>
            sound (workingRoot (solveLoop fmt c r)) \<and> full (workingRoot (solveLoop fmt c r)))"
proof -
  have e: "map ((@) []) ps = ps" for ps :: "path list"
    by (induction ps) simp_all
  from solve_subtree_sound [OF hole_Nil refl, of r fmt c] assms(1,2)
  show ?thesis
    unfolding settled_def by (auto simp: solveLoop_def e)
qed

lemma handleSolve_sound_any:
  assumes "sound (root st)"
  shows "sound (root (handleSolve fmt c b st)) \<and>
         (calculationMode (handleSolve fmt c b st) = Auto \<longrightarrow>
            (\<forall>d \<in> set (flattenTreePostOrder (root (handleSolve fmt c b st))). hasOptimalChild d))"
proof (cases b)
  case True
  have "handleSolve fmt c True st = handleSolve fmt None True st"
    by (simp add: handleSolve_def)
  with handleSolve_sound [OF assms, of fmt True] True show ?thesis by simp
next
  case False
  let ?i = "solveInit st"
  let ?r = "solveLoop fmt c ?i"
  have i: "sound (workingRoot ?i)" "sound (root (app ?i))" "\<not> aborted ?i"
    "calculationMode (app ?i) = Step"
    using assms by (auto simp: solveInit_def Let_def clearValuesSolve_sound)
  note l = solveLoop_sound [OF i(1,2,3), of fmt c]
  have mode: "calculationMode (app (fold (solveNode fmt c) ps r)) = calculationMode (app r)" for ps r
    by (induction ps arbitrary: r) (simp_all add: solveNode_def Let_def split: option.splits)
  have m: "calculationMode (app ?r) = Step"
    using i(4) by (simp add: solveLoop_def mode)
  show ?thesis
  proof (cases "aborted ?r")
    case True
    with l m False show ?thesis
      by (simp add: handleSolve_def handleSolveAuto_def solveFinish_def)
  next
    case na: False
    with l have w: "sound (workingRoot ?r)" "full (workingRoot ?r)" by simp_all
    from markOptimalPath_hasOptimalChild [OF sound_leaves [OF w(1)] sound_computed [OF w]]
      markOptimalPath_sound [OF w(1)] na False
    show ?thesis
      by (simp add: handleSolve_def handleSolveAuto_def solveFinish_def)
  qed
qed

lemma handleRequests_sound:
  "sound (root st) \<Longrightarrow> requests \<noteq> [] \<Longrightarrow>
   sound (root (handleRequests fmt requests st)) \<and>
   (calculationMode (handleRequests fmt requests st) = Auto \<longrightarrow>
      (\<forall>d \<in> set (flattenTreePostOrder (root (handleRequests fmt requests st))). hasOptimalChild d))"
proof (induction requests arbitrary: st)
  case Nil
  then show ?case by simp
next
  case (Cons b rs)
  obtain stepByStep cancel where b: "b = (stepByStep, cancel)" by (cases b)
  note h = handleSolve_sound_any [OF Cons.prems(1), of fmt cancel stepByStep]
  show ?case
  proof (cases "rs = []")
    case True
    with h b show ?thesis by simp
  next
    case False
    from Cons.IH [OF conjunct1 [OF h] False] b show ?thesis by simp
  qed
qed

lemma fresh_sound:
  assumes "terminalsAreLeaves t"
    and "\<forall>n \<in> set (flattenTreePostOrder t). type (attrs n) = TERMINAL \<longrightarrow> value_n (attrs n) \<noteq> None"
    and "\<forall>n \<in> set (flattenTreePostOrder t). calculatedValue (attrs n) = None"
  shows "sound t"
  using assms
proof (induction t)
  case (TreeNode a cs)
  have "sound c" if c: "c \<in> set cs" for c
  proof -
    from TreeNode.prems c have "terminalsAreLeaves c"
      "\<forall>n \<in> set (flattenTreePostOrder c). type (attrs n) = TERMINAL \<longrightarrow> value_n (attrs n) \<noteq> None"
      "\<forall>n \<in> set (flattenTreePostOrder c). calculatedValue (attrs n) = None"
      by (auto simp: list_all_iff)
    from TreeNode.IH [OF c this] show ?thesis .
  qed
  then have "list_all sound cs" by (simp add: list_all_iff)
  with TreeNode.prems show ?case by (cases "type a = TERMINAL") simp_all
qed

section \<open>The replay entered from Stepping, in the model\<close>

lemma strip_probability: "probability (strip x) = probability (attrs x)"
  by (simp add: strip_def)

lemma strip_children_eqD:
  assumes "map strip xs = map strip ys"
  shows "map (\<lambda>c. calculatedValue (attrs c)) xs = map (\<lambda>c. calculatedValue (attrs c)) ys"
    and "map (\<lambda>c. probability (attrs c)) xs = map (\<lambda>c. probability (attrs c)) ys"
proof -
  from arg_cong [OF assms, of "map calculatedValue"]
  show "map (\<lambda>c. calculatedValue (attrs c)) xs = map (\<lambda>c. calculatedValue (attrs c)) ys"
    by (simp add: comp_def strip_sel)
  from arg_cong [OF assms, of "map probability"]
  show "map (\<lambda>c. probability (attrs c)) xs = map (\<lambda>c. probability (attrs c)) ys"
    by (simp add: comp_def strip_probability)
qed

lemma calculateNodeEMV_children:
  "calculateNodeEMV n =
     (if type (attrs n) = TERMINAL then (case value_n (attrs n) of None \<Rightarrow> 0 | Some v \<Rightarrow> v)
      else case map (\<lambda>c. nullish (calculatedValue (attrs c)) 0) (children n) of
        [] \<Rightarrow> 0
      | v # vs \<Rightarrow>
         (if type (attrs n) = DECISION then Math_max v vs
          else if type (attrs n) = CHANCE then
            foldl (+) 0 (map (\<lambda>p. nullish (fst p) 0 * nullish (snd p) 0)
                           (zip (map (\<lambda>c. calculatedValue (attrs c)) (children n))
                                (map (\<lambda>c. probability (attrs c)) (children n))))
          else 0))"
proof -
  have z: "zip (map f xs) (map g xs) = map (\<lambda>x. (f x, g x)) xs"
    for f :: "TreeNode \<Rightarrow> real option" and g :: "TreeNode \<Rightarrow> real option" and xs
    by (induction xs) simp_all
  have F: "foldl (\<lambda>sum child. sum + nullish (calculatedValue (attrs child)) 0
                                    * nullish (probability (attrs child)) 0) 0 xs
         = foldl (+) 0 (map (\<lambda>p. nullish (fst p) 0 * nullish (snd p) 0)
                           (zip (map (\<lambda>c. calculatedValue (attrs c)) xs)
                                (map (\<lambda>c. probability (attrs c)) xs)))" for xs
    by (simp add: z foldl_map comp_def)
  show ?thesis
  proof (cases "children n")
    case Nil
    then show ?thesis by (simp add: calculateNodeEMV_def)
  next
    case (Cons c cs)
    show ?thesis
      unfolding calculateNodeEMV_def F using Cons by simp
  qed
qed

lemma strip_markOptimalPath_children:
  "map strip (children (markOptimalPath t)) = map strip (children t)"
  by (rule nth_equalityI)
     (simp_all add: children_markOptimalPath_nth strip_def split: option.splits)

lemma calculateNodeEMV_cong:
  assumes "type (attrs x) = type (attrs y)" and "value_n (attrs x) = value_n (attrs y)"
    and "map (\<lambda>c. calculatedValue (attrs c)) (children x) = map (\<lambda>c. calculatedValue (attrs c)) (children y)"
    and "map (\<lambda>c. probability (attrs c)) (children x) = map (\<lambda>c. probability (attrs c)) (children y)"
  shows "calculateNodeEMV x = calculateNodeEMV y"
proof -
  have n: "map (\<lambda>c. nullish (calculatedValue (attrs c)) 0) cs
         = map (\<lambda>v. nullish v (0::real)) (map (\<lambda>c. calculatedValue (attrs c)) cs)" for cs
    by simp
  show ?thesis
    unfolding calculateNodeEMV_children [of x] calculateNodeEMV_children [of y] n assms ..
qed

lemma markOptimalPath_nodeAt_strip:
  "nodeAt t p = Some m \<Longrightarrow>
     \<exists>n'. nodeAt (markOptimalPath t) p = Some n' \<and> strip n' = strip m \<and>
          map strip (children n') = map strip (children m)"
proof (induction p arbitrary: t)
  case Nil
  then have m: "m = t" by simp
  have "strip (markOptimalPath t) = strip t" by (simp add: strip_def)
  with m strip_markOptimalPath_children [of t] show ?case by simp
next
  case (Cons i q)
  from Cons.prems have i: "i < length (children t)" and sub: "nodeAt (children t ! i) q = Some m"
    by (simp_all split: if_splits)
  from Cons.IH [OF sub] obtain n' where n':
    "nodeAt (markOptimalPath (children t ! i)) q = Some n'" "strip n' = strip m"
    "map strip (children n') = map strip (children m)"
    by blast
  have w: "\<exists>k. nodeAt (withIsOptimal b (markOptimalPath (children t ! i))) q = Some k \<and>
              strip k = strip m \<and> map strip (children k) = map strip (children m)" for b
  proof (cases q)
    case Nil
    with n' show ?thesis by (simp add: strip_def)
  next
    case (Cons j r)
    then have "q \<noteq> []" by simp
    with n' show ?thesis by (simp add: nodeAt_withIsOptimal del: nodeAt.simps)
  qed
  have "\<exists>k. nodeAt (children (markOptimalPath t) ! i) q = Some k \<and>
              strip k = strip m \<and> map strip (children k) = map strip (children m)"
  proof (cases "type (attrs t) = TERMINAL")
    case True
    from sub have "\<exists>k. nodeAt (children t ! i) q = Some k \<and>
              strip k = strip m \<and> map strip (children k) = map strip (children m)" by simp
    with True i show ?thesis by (simp add: children_markOptimalPath_nth)
  next
    case False
    show ?thesis
    proof (cases "calculatedValue (attrs t)")
      case None
      with False i n' show ?thesis by (simp add: children_markOptimalPath_nth)
    next
      case (Some v)
      show ?thesis
      proof (cases "type (attrs t) = DECISION")
        case True
        with False Some i w show ?thesis by (simp add: children_markOptimalPath_nth)
      next
        case no: False
        with False Some i n' show ?thesis by (simp add: children_markOptimalPath_nth)
      qed
    qed
  qed
  with i show ?case by simp
qed

lemma zip_results:
  "map strip ys = map (\<lambda>n. strip (g n)) xs \<Longrightarrow>
   map (\<lambda>(n, n'). calculatedValue (attrs n')) (filter (\<lambda>(n, n'). P n) (zip xs ys))
     = map (\<lambda>n. calculatedValue (attrs (g n))) (filter P xs)"
proof (induction xs arbitrary: ys)
  case Nil
  show ?case by simp
next
  case (Cons x xs)
  then obtain y ys' where ys: "ys = y # ys'" by (cases ys) auto
  with Cons.prems have h: "strip y = strip (g x)" and t: "map strip ys' = map (\<lambda>n. strip (g n)) xs"
    by simp_all
  from strip_eqD(2) [OF h] Cons.IH [OF t] ys show ?case by simp
qed

text \<open>
  The replay entered from Stepping and not cancelled, in the model: the log, the results
  of the new entries, the flags, and the node at each position of the final tree.
\<close>

lemma handleSolve_from_stepping:
  assumes "calculationMode st = Step"
  shows "logs (handleSolve fmt None False st) = logs st @ evaluateLog fmt (root st)"
    and "map (\<lambda>e. (nodeLabel e, nodeType e)) (evaluateLog fmt (root st))
              = map (\<lambda>n. (label (attrs n), type (attrs n)))
                  (filter pending (flattenTreePostOrder (root st)))"
    and "map (\<lambda>e. Some (result e)) (evaluateLog fmt (root st))
              = map (\<lambda>(n, n'). calculatedValue (attrs n'))
                  (filter (\<lambda>(n, n'). pending n)
                     (zip (flattenTreePostOrder (root st))
                          (flattenTreePostOrder (root (handleSolve fmt None False st)))))"
    and "delays (solveLoop fmt None (solveInit st)) = length (evaluateLog fmt (root st))"
    and "root (handleSolve fmt None False st)
           = markOptimalPath (workingRoot (solveLoop fmt None (solveInit st)))"
    and "calculationMode (handleSolve fmt None False st) = Auto"
    and "terminalsAreLeaves (root st) \<Longrightarrow>
           \<forall>d \<in> set (flattenTreePostOrder (root (handleSolve fmt None False st))). flagged d"
    and "nodeAt (root st) p = Some n \<Longrightarrow>
            \<exists>n'. nodeAt (root (handleSolve fmt None False st)) p = Some n' \<and>
                  strip n' = strip (evaluate n) \<and>
                  length (children n') = length (children n) \<and>
                  (pending n \<longrightarrow> calculatedValue (attrs n') = Some (calculateNodeEMV n'))"
proof -
  let ?st' = "handleSolve fmt None False st"
  have init: "workingRoot (solveInit st) = root st" "logs (app (solveInit st)) = logs st"
    "\<not> aborted (solveInit st)"
    using assms by (simp_all add: solveInit_def Let_def)
  from handleSolveAuto_complete [of fmt st] init
  have rt: "root ?st' = markOptimalPath (evaluate (root st))"
    and lg: "logs ?st' = logs st @ evaluateLog fmt (root st)"
    and dl: "delays (solveLoop fmt None (solveInit st)) = length (evaluateLog fmt (root st))"
    and md: "calculationMode ?st' = Auto"
    by simp_all
  have wr: "workingRoot (solveLoop fmt None (solveInit st)) = evaluate (root st)"
    using solveLoop_complete [OF init(3), of fmt] init(1) by simp
  show "logs ?st' = logs st @ evaluateLog fmt (root st)" by (rule lg)
  show "map (\<lambda>e. (nodeLabel e, nodeType e)) (evaluateLog fmt (root st))
              = map (\<lambda>n. (label (attrs n), type (attrs n)))
                  (filter pending (flattenTreePostOrder (root st)))"
    by (rule evaluateLog_labels)
  have "map strip (flattenTreePostOrder (root ?st'))
      = map (\<lambda>n. strip (evaluate n)) (flattenTreePostOrder (root st))"
    unfolding rt flatten_markOptimalPath flatten_evaluate by simp
  from zip_results [OF this, of pending]
  show "map (\<lambda>e. Some (result e)) (evaluateLog fmt (root st))
              = map (\<lambda>(n, n'). calculatedValue (attrs n'))
                  (filter (\<lambda>(n, n'). pending n)
                     (zip (flattenTreePostOrder (root st)) (flattenTreePostOrder (root ?st'))))"
    by (simp add: evaluateLog_results)
  show "delays (solveLoop fmt None (solveInit st)) = length (evaluateLog fmt (root st))"
    by (rule dl)
  show "root ?st' = markOptimalPath (workingRoot (solveLoop fmt None (solveInit st)))"
    unfolding rt wr ..
  show "calculationMode ?st' = Auto" by (rule md)
  show "\<forall>d \<in> set (flattenTreePostOrder (root ?st')). flagged d" if "terminalsAreLeaves (root st)"
    unfolding rt using that
    by (intro markOptimalPath_flagged) (simp add: terminalsAreLeaves_evaluate)
  show "\<exists>n'. nodeAt (root ?st') p = Some n' \<and> strip n' = strip (evaluate n) \<and>
                  length (children n') = length (children n) \<and>
                  (pending n \<longrightarrow> calculatedValue (attrs n') = Some (calculateNodeEMV n'))"
    if n: "nodeAt (root st) p = Some n"
  proof -
    from n have "nodeAt (evaluate (root st)) p = Some (evaluate n)"
      by (simp add: nodeAt_evaluate)
    from markOptimalPath_nodeAt_strip [OF this] obtain n' where n':
      "nodeAt (root ?st') p = Some n'" "strip n' = strip (evaluate n)"
      "map strip (children n') = map strip (children (evaluate n))"
      unfolding rt by blast
    from arg_cong [OF n'(3), of length] have len: "length (children n') = length (children n)"
      by (simp add: children_evaluate)
    have "calculatedValue (attrs n') = Some (calculateNodeEMV n')" if p: "pending n"
    proof -
      let ?e = "TreeNode (attrs n) (map evaluate (children n))"
      from p have cv: "calculatedValue (attrs (evaluate n)) = Some (calculateNodeEMV ?e)"
        by (simp add: attrs_evaluate pending_def)
      have "calculateNodeEMV n' = calculateNodeEMV ?e"
      proof (rule calculateNodeEMV_cong)
        from strip_eqD(1) [OF n'(2)] show "type (attrs n') = type (attrs ?e)" by simp
        from strip_eqD(3) [OF n'(2)] show "value_n (attrs n') = value_n (attrs ?e)"
          by (simp add: attrs_evaluate)
        from strip_children_eqD [OF n'(3)]
        show "map (\<lambda>c. calculatedValue (attrs c)) (children n')
            = map (\<lambda>c. calculatedValue (attrs c)) (children ?e)"
          and "map (\<lambda>c. probability (attrs c)) (children n')
            = map (\<lambda>c. probability (attrs c)) (children ?e)"
          by (simp_all add: children_evaluate)
      qed
      with cv strip_eqD(2) [OF n'(2)] show ?thesis by simp
    qed
    with n' len show ?thesis by blast
  qed
qed

section \<open>The two models agree on finite numbers\<close>

lemma attrs_rep [simp]: "attrs_js (rep t) = rep_attrs (attrs t)"
  by (cases t) simp

lemma children_rep [simp]: "children_js (rep t) = map rep (children t)"
  by (cases t) simp

lemma rep_attrs_sel [simp]:
  "type_js (rep_attrs a) = type a"
  "label_js (rep_attrs a) = label a"
  "value_js (rep_attrs a) = rep_value (value_n a)"
  "probability_js (rep_attrs a) = rep_value (probability a)"
  "calculatedValue_js (rep_attrs a) = rep_value (calculatedValue a)"
  "isOptimal_js (rep_attrs a) = isOptimal a"
  by (simp_all add: rep_attrs_def)

lemma rep_value_Undefined [simp]: "rep_value v = Undefined \<longleftrightarrow> v = None"
  by (cases v) (simp_all add: rep_value_def)

lemma nullish_rep [simp]: "nullish_js (rep_value v) (Num d) = Num (nullish v d)"
  by (cases v) (simp_all add: rep_value_def nullish_js_def nullish_def)

lemma ToNumber_rep [simp]: "ToNumber (rep_value (Some x)) = Num x"
  by (simp add: rep_value_def ToNumber_def)

lemma or_rep [simp]: "or_js (rep_value v) (Num 0) = Num (case v of None \<Rightarrow> 0 | Some x \<Rightarrow> x)"
  by (cases v) (simp_all add: rep_value_def or_js_def)

lemma js_arith [simp]:
  "js_add (Num x) (Num y) = Num (x + y)"
  "js_sub (Num x) (Num y) = Num (x - y)"
  "js_mul (Num x) (Num y) = Num (x * y)"
  "js_max (Num x) (Num y) = Num (max x y)"
  "js_abs (Num x) = Num \<bar>x\<bar>"
  "js_less (Num x) (Num y) \<longleftrightarrow> x < y"
  by (simp_all add: js_add_def js_sub_def js_mul_def js_max_def js_abs_def js_less_def)

lemma Math_max_rep: "Math_max_js (Num x) (map Num xs) = Num (Math_max x xs)"
  unfolding Math_max_js_def Math_max_def
proof (induction xs arbitrary: x)
  case Nil
  show ?case by simp
next
  case (Cons y ys)
  show ?case by (simp add: Cons.IH max.commute)
qed

lemma foldl_rep:
  "foldl (\<lambda>s c. js_add s (Num (g c))) (Num z) cs = Num (foldl (\<lambda>s c. s + g c) z cs)"
  by (induction cs arbitrary: z) simp_all

lemma calculateNodeEMV_rep: "calculateNodeEMV_js (rep n) = Num (calculateNodeEMV n)"
proof (cases "children n")
  case Nil
  then show ?thesis by (simp add: calculateNodeEMV_js_def calculateNodeEMV_def)
next
  case (Cons c cs)
  have m: "map (\<lambda>c. nullish_js (calculatedValue_js (attrs_js c)) (Num 0)) (map rep cs)
         = map Num (map (\<lambda>c. nullish (calculatedValue (attrs c)) 0) cs)"
    by simp
  have f: "foldl (\<lambda>sum child.
                     js_add sum
                       (js_mul (nullish_js (calculatedValue_js (attrs_js child)) (Num 0))
                               (nullish_js (probability_js (attrs_js child)) (Num 0))))
              (Num 0) (map rep xs)
         = Num (foldl (\<lambda>sum child. sum + nullish (calculatedValue (attrs child)) 0
                                    * nullish (probability (attrs child)) 0) 0 xs)" for xs
    using foldl_rep [of "\<lambda>c. nullish (calculatedValue (attrs c)) 0 * nullish (probability (attrs c)) 0" 0 xs]
    by (simp add: foldl_map)
  show ?thesis
    unfolding calculateNodeEMV_js_def calculateNodeEMV_def
    using Cons f [of "children n"]
    by (simp add: m Math_max_rep del: foldl.simps map_map foldl_Cons)
qed

lemma rep_withIsOptimal: "withIsOptimal_js b (rep x) = rep (withIsOptimal b x)"
  by (cases x) (simp add: withIsOptimal_js_def withIsOptimal_def rep_attrs_def)

lemma rep_withCalculatedValue:
  "withCalculatedValue_js (rep_value v) (rep x) = rep (withCalculatedValue v x)"
  by (cases x) (simp add: withCalculatedValue_js_def withCalculatedValue_def rep_attrs_def)

lemma markOptimalPath_rep: "markOptimalPath_js (rep t) = rep (markOptimalPath t)"
proof (induction t)
  case (TreeNode a cs)
  have kids: "map markOptimalPath_js (map rep cs) = map rep (map markOptimalPath cs)"
    using TreeNode.IH by simp
  show ?case
  proof (cases "type a = TERMINAL \<or> cs = []")
    case True
    then show ?thesis by auto
  next
    case False
    show ?thesis
    proof (cases "calculatedValue a")
      case None
      with False kids show ?thesis by (simp add: Let_def del: map_map)
    next
      case (Some v)
      have fl: "map (\<lambda>child.
                     withIsOptimal_js
                       (Some (js_less
                                (js_abs (js_sub (nullish_js (calculatedValue_js (attrs_js child)) (Num 0))
                                                (Num v)))
                                (Num eps)))
                       child) (map rep xs)
              = map rep (map (\<lambda>child.
                          withIsOptimal
                            (Some (\<bar>nullish (calculatedValue (attrs child)) 0 - v\<bar> < eps))
                            child) xs)" for xs eps
        by (simp add: rep_withIsOptimal)
      from False kids Some show ?thesis
        by (simp add: Let_def fl del: map_map)
    qed
  qed
qed

lemma JSON_value_rep [simp]: "JSON_value (rep_value v) = rep_value v"
  by (cases v) (simp_all add: JSON_value_def rep_value_def)

lemma JSON_attrs_rep [simp]: "JSON_attrs (rep_attrs a) = rep_attrs a"
  by (simp add: JSON_attrs_def rep_attrs_def)

lemma JSON_copy_rep [simp]: "JSON_copy (rep t) = rep t"
  by (induction t) (simp add: map_idI)

lemma clearValuesSolve_rep: "clearValuesSolve_js (rep t) = rep (clearValuesSolve t)"
  by (induction t) (simp add: rep_attrs_def rep_value_def)

lemma nodeAt_rep: "nodeAt_js (rep t) p = map_option rep (nodeAt t p)"
proof (induction p arbitrary: t)
  case Nil
  show ?case by simp
next
  case (Cons i p)
  show ?case by (simp add: Cons.IH)
qed

lemma updateAt_rep:
  assumes "\<And>x. F (rep x) = rep (f x)"
  shows "updateAt_js p F (rep t) = rep (updateAt p f t)"
proof (induction p arbitrary: t)
  case Nil
  show ?case by (simp add: assms)
next
  case (Cons i p)
  show ?case by (simp add: Cons.IH map_update)
qed

lemma flattenPaths_rep:
  "flattenPaths_js (rep t) = flattenPaths t"
  "flattenPathsFrom_js k (map rep cs) = flattenPathsFrom k cs"
  by (induction t and k cs rule: flattenPaths_flattenPathsFrom.induct) simp_all

lemma flatten_rep: "flattenTreePostOrder_js (rep t) = map rep (flattenTreePostOrder t)"
  by (induction t) (simp add: map_concat comp_def cong: map_cong)

lemma list_all_rep:
  "list_all (\<lambda>c. calculatedValue_js (attrs_js c) \<noteq> Undefined) (map rep cs)
     = list_all (\<lambda>c. calculatedValue (attrs c) \<noteq> None) cs"
  by (simp add: list_all_iff)

lemma stepCalculate_rep:
  "stepCalculate_js fmt (rep t) (fst s, map rep_log (snd s)) =
     (case stepCalculate (fmt \<circ> rep) t s of
        (t', f', lg') \<Rightarrow> (rep t', f', map rep_log lg'))"
  "stepCalculateChildren_js fmt (map rep cs) (fst s, map rep_log (snd s)) =
     (case stepCalculateChildren (fmt \<circ> rep) cs s of
        (cs', f', lg') \<Rightarrow> (map rep cs', f', map rep_log lg'))"
proof (induction "fmt \<circ> rep" t s and "fmt \<circ> rep" cs s rule: stepCalculate_stepCalculateChildren.induct)
  case (1 a cs s)
  show ?case
  proof (cases "calculatedValue a \<noteq> None")
    case True
    then show ?thesis by (cases s) auto
  next
    case False
    show ?thesis
    proof (cases "type a = TERMINAL")
      case True
      with False show ?thesis by (cases s) (simp add: rep_attrs_def)
    next
      case nt: False
      obtain cs' f lg where r: "stepCalculateChildren (fmt \<circ> rep) cs s = (cs', f, lg)"
        by (cases "stepCalculateChildren (fmt \<circ> rep) cs s") auto
      from "1.hyps" False nt r
      have k: "stepCalculateChildren_js fmt (map rep cs) (fst s, map rep_log (snd s))
               = (map rep cs', f, map rep_log lg)" by simp
      have w: "withCalculatedValue_js (Number (Num v)) (JsNode (rep_attrs a) (map rep cs'))
             = rep (withCalculatedValue (Some v) (TreeNode a cs'))" for v
        using rep_withCalculatedValue [of "Some v" "TreeNode a cs'"] by (simp add: rep_value_def)
      have c: "calculateNodeEMV_js (JsNode (rep_attrs a) (map rep cs'))
             = Num (calculateNodeEMV (TreeNode a cs'))"
        using calculateNodeEMV_rep [of "TreeNode a cs'"] by simp
      from False nt r k show ?thesis
        by (simp add: Let_def list_all_rep c w rep_log_def del: map_map)
    qed
  qed
next
  case (2 s)
  show ?case by (cases s) simp
next
  case (3 c cs s)
  obtain c' s' where c': "stepCalculate (fmt \<circ> rep) c s = (c', s')"
    by (cases "stepCalculate (fmt \<circ> rep) c s") auto
  obtain cs' s'' where cs': "stepCalculateChildren (fmt \<circ> rep) cs s' = (cs', s'')"
    by (cases "stepCalculateChildren (fmt \<circ> rep) cs s'") auto
  from "3.hyps"(1) c' have 1: "stepCalculate_js fmt (rep c) (fst s, map rep_log (snd s))
      = (rep c', fst s', map rep_log (snd s'))" by (cases s') simp
  from "3.hyps"(2) [OF c' [symmetric]] cs'
  have 2: "stepCalculateChildren_js fmt (map rep cs) (fst s', map rep_log (snd s'))
      = (map rep cs', fst s'', map rep_log (snd s''))" by (cases s'') simp
  from 1 2 c' cs' show ?case by (cases s'') simp
qed

lemma handleSolveStep_rep:
  "handleSolveStep_js fmt (rep_state st) = rep_state (handleSolveStep (fmt \<circ> rep) st)"
proof -
  obtain t' f lg where r: "stepCalculate (fmt \<circ> rep) (root st) (False, logs st) = (t', f, lg)"
    by (cases "stepCalculate (fmt \<circ> rep) (root st) (False, logs st)") auto
  with stepCalculate_rep(1) [of fmt "root st" "(False, logs st)"]
  have "stepCalculate_js fmt (rep (root st)) (False, map rep_log (logs st))
      = (rep t', f, map rep_log lg)" by simp
  with r show ?thesis
    by (simp add: handleSolveStep_js_def handleSolveStep_def rep_state_def markOptimalPath_rep)
qed

lemma solveInit_rep: "solveInit_js (rep_state st) = rep_replay (solveInit st)"
  by (simp add: solveInit_js_def solveInit_def rep_state_def rep_replay_def Let_def
        clearValuesSolve_rep)

lemma solveNode_rep:
  "solveNode_js fmt cancel p (rep_replay r) = rep_replay (solveNode (fmt \<circ> rep) cancel p r)"
proof (cases "aborted r")
  case True
  then show ?thesis by (simp add: solveNode_js_def solveNode_def rep_replay_def)
next
  case False
  show ?thesis
  proof (cases "nodeAt (workingRoot r) p")
    case None
    with False show ?thesis
      by (simp add: solveNode_js_def solveNode_def rep_replay_def nodeAt_rep)
  next
    case (Some node)
    have u: "updateAt_js p (withCalculatedValue_js (rep_value v)) (rep t)
           = rep (updateAt p (withCalculatedValue v) t)" for v t
      by (rule updateAt_rep) (rule rep_withCalculatedValue)
    have u': "updateAt_js p (withCalculatedValue_js (Number (Num v))) (rep t)
           = rep (updateAt p (withCalculatedValue (Some v)) t)" for v t
      using u [of "Some v" t] by (simp add: rep_value_def)
    have w: "withCalculatedValue_js (Number (Num v)) (rep x) = rep (withCalculatedValue (Some v) x)"
      for v x
      using rep_withCalculatedValue [of "Some v" x] by (simp add: rep_value_def)
    from False Some show ?thesis
      by (simp add: solveNode_js_def solveNode_def rep_replay_def nodeAt_rep Let_def u u' w
            calculateNodeEMV_rep rep_state_def rep_log_def)
  qed
qed

lemma fold_solveNode_rep:
  "fold (solveNode_js fmt cancel) ps (rep_replay r)
     = rep_replay (fold (solveNode (fmt \<circ> rep) cancel) ps r)"
  by (induction ps arbitrary: r) (simp_all add: solveNode_rep)

lemma solveLoop_rep:
  "solveLoop_js fmt cancel (rep_replay r) = rep_replay (solveLoop (fmt \<circ> rep) cancel r)"
  by (simp add: solveLoop_js_def solveLoop_def fold_solveNode_rep)
     (simp add: rep_replay_def flattenPaths_rep fold_solveNode_rep [unfolded rep_replay_def])

lemma solveFinish_rep: "solveFinish_js (rep_replay r) = rep_state (solveFinish r)"
  by (simp add: solveFinish_js_def solveFinish_def rep_replay_def rep_state_def markOptimalPath_rep)

text \<open>
  On a state whose number fields hold finite numbers or are undefined, the run-time
  handler gives the state that the handler of the model gives, for a manual step and for
  a replay, cancelled or not.
\<close>

lemma handleSolve_rep:
  "handleSolve_js fmt cancel stepByStep (rep_state st)
     = rep_state (handleSolve (fmt \<circ> rep) cancel stepByStep st)"
  by (simp add: handleSolve_js_def handleSolve_def handleSolveStep_rep handleSolveAuto_js_def
        handleSolveAuto_def solveInit_rep solveLoop_rep solveFinish_rep)

lemma terminalsAreLeaves_rep: "terminalsAreLeaves_js (rep t) = terminalsAreLeaves t"
  by (induction t) (simp add: list_all_iff)

lemma handleRequests_rep:
  "handleRequests_js fmt requests (rep_state st)
     = rep_state (handleRequests (fmt \<circ> rep) requests st)"
proof (induction requests arbitrary: st)
  case Nil
  show ?case by simp
next
  case (Cons b rs)
  obtain stepByStep cancel where b: "b = (stepByStep, cancel)" by (cases b)
  show ?case unfolding b by (simp add: handleSolve_rep Cons.IH comp_def)
qed

lemma rep_state_sel [simp]:
  "root_js (rep_state st) = rep (root st)"
  "calculationMode_js (rep_state st) = calculationMode st"
  "logs_js (rep_state st) = map rep_log (logs st)"
  "selectedNodeId_js (rep_state st) = selectedNodeId st"
  by (simp_all add: rep_state_def)

lemma rep_value_Number [simp]: "rep_value v = Number (Num x) \<longleftrightarrow> v = Some x"
  by (cases v) (simp_all add: rep_value_def)

lemma rep_replay_sel [simp]:
  "app_js (rep_replay r) = rep_state (app r)"
  "workingRoot_js (rep_replay r) = rep (workingRoot r)"
  "delays_js (rep_replay r) = delays r"
  "aborted_js (rep_replay r) = aborted r"
  by (simp_all add: rep_replay_def)

lemma rep_log_sel [simp]:
  "nodeLabel_js (rep_log e) = nodeLabel e"
  "nodeType_js (rep_log e) = nodeType e"
  "result_js (rep_log e) = Num (result e)"
  by (simp_all add: rep_log_def)

lemma nodeAt_rep_Some:
  assumes "nodeAt_js (rep t) p = Some n"
  obtains n0 where "nodeAt t p = Some n0" and "n = rep n0"
  using assms by (auto simp: nodeAt_rep)

lemma strip_eq_fields:
  assumes "strip m = strip n"
  shows "type (attrs m) = type (attrs n)" and "label (attrs m) = label (attrs n)"
    and "value_n (attrs m) = value_n (attrs n)" and "probability (attrs m) = probability (attrs n)"
    and "calculatedValue (attrs m) = calculatedValue (attrs n)"
  using strip_eqD [OF assms] arg_cong [OF assms, of probability]
  by (simp_all add: strip_probability)

lemma editState_rep: "editState_js (rep t) = rep_state (editState t)"
  by (simp add: editState_js_def rep_state_def editState_def)

lemma noFormula_rep: "noFormula_js \<circ> rep = noFormula"
  by (simp add: fun_eq_iff noFormula_js_def noFormula_def)

lemmas run_js_defs =
  handleSolve_js_def handleSolveAuto_js_def handleSolveStep_js_def solveFinish_js_def
  solveLoop_js_def solveNode_js_def solveInit_js_def withCalculatedValue_js_def
  withIsOptimal_js_def calculateNodeEMV_js_def Math_max_js_def nullish_js_def or_js_def
  ToNumber_def js_add_def js_sub_def js_mul_def js_max_def js_abs_def js_less_def
  JSON_attrs_def JSON_value_def mkNode_js_def editState_js_def noFormula_js_def Let_def

lemmas rep_defs = rep.simps rep_attrs_def rep_value_def rep_state_def rep_log_def

lemmas example_defs =
  solvedA_def solvedLeaf_def steppedA_js_def steppedEmptiedA_def fourSteps_def
  cancelledThenResumed_def

section \<open>The reset at the start of an automatic replay, at run time\<close>

lemma JSON_value_idem [simp]: "JSON_value (JSON_value v) = JSON_value v"
  by (simp add: JSON_value_def split: JsValue.splits JsNumber.splits)

lemma JSON_value_Undefined [simp]: "JSON_value Undefined = Undefined"
  by (simp add: JSON_value_def)

lemma JSON_attrs_idem [simp]: "JSON_attrs (JSON_attrs a) = JSON_attrs a"
  by (simp add: JSON_attrs_def)

lemma JSON_attrs_cleared:
  "JSON_attrs ((JSON_attrs a)\<lparr>calculatedValue_js := Undefined, isOptimal_js := b\<rparr>)
     = (JSON_attrs a)\<lparr>calculatedValue_js := Undefined, isOptimal_js := b\<rparr>"
  by (simp add: JSON_attrs_def)

lemma JSON_copy_cleared:
  "JSON_copy (clearValuesSolve_js (JSON_copy t)) = clearValuesSolve_js (JSON_copy t)"
  by (induction t) (simp add: JSON_attrs_cleared JSON_attrs_def)

lemma nodeAt_JSON_copy: "nodeAt_js (JSON_copy t) p = map_option JSON_copy (nodeAt_js t p)"
proof (induction p arbitrary: t)
  case Nil
  show ?case by simp
next
  case (Cons i p)
  show ?case by (cases t) (simp add: Cons.IH)
qed

lemma nodeAt_clearValuesSolve_js:
  "nodeAt_js (clearValuesSolve_js t) p = map_option clearValuesSolve_js (nodeAt_js t p)"
proof (induction p arbitrary: t)
  case Nil
  show ?case by simp
next
  case (Cons i p)
  show ?case by (cases t) (simp add: Cons.IH)
qed

lemma attrs_reset:
  "attrs_js (clearValuesSolve_js (JSON_copy n)) =
     (if type_js (attrs_js n) = TERMINAL then JSON_attrs (attrs_js n)
      else (JSON_attrs (attrs_js n))\<lparr>calculatedValue_js := Undefined, isOptimal_js := None\<rparr>)"
  by (cases n) (simp add: JSON_attrs_def)

lemma length_children_reset:
  "length (children_js (clearValuesSolve_js (JSON_copy n))) = length (children_js n)"
  by (cases n) simp

text \<open>
  C5, as stated, fails: the reset of the replay spares the Terminal nodes. After a
  completed replay of \<open>oneLeaf\<close> the state is Solved; the reset of the next replay leaves
  the calculatedValue 5 and the flag isOptimal of the Terminal child in place.
\<close>

theorem solveInit_spares_terminal_counterexample:
  "calculationMode_js solvedLeaf = Auto \<and>
   map_option (type_js \<circ> attrs_js)
     (nodeAt_js (root_js (app_js (solveInit_js solvedLeaf))) [0])
     = Some TERMINAL \<and>
   map_option (calculatedValue_js \<circ> attrs_js)
     (nodeAt_js (root_js (app_js (solveInit_js solvedLeaf))) [0])
     = Some (Number (Num 5)) \<and>
   map_option (isOptimal_js \<circ> attrs_js)
     (nodeAt_js (root_js (app_js (solveInit_js solvedLeaf))) [0])
     = Some (Some True)"
  by (simp add: run_js_defs example_defs rep_defs oneLeaf_def mkNode_def)

text \<open>
  C5, amended. When the replay is entered from Edit or restarted from Solved, the state
  before the first turn of the loop has an empty log, no pacing delay has been met, the
  published tree is the working tree, and that tree has the nodes of the old one at the
  same positions. A node that is not Terminal has calculatedValue and isOptimal cleared.
  A Terminal node keeps its calculatedValue and its isOptimal. Apart from that the fields
  of every node are those of the copy through JSON: a number field that held NaN holds
  \<open>null\<close>, every other field is unchanged. This holds of every run-time state.
\<close>

theorem solveInit_reset:
  assumes "calculationMode_js st = Edit \<or> calculationMode_js st = Auto"
  shows "logs_js (app_js (solveInit_js st)) = [] \<and> delays_js (solveInit_js st) = 0 \<and>
         \<not> aborted_js (solveInit_js st) \<and>
         calculationMode_js (app_js (solveInit_js st)) = Step \<and>
         selectedNodeId_js (app_js (solveInit_js st)) = selectedNodeId_js st \<and>
         root_js (app_js (solveInit_js st)) = workingRoot_js (solveInit_js st) \<and>
         (nodeAt_js (root_js (app_js (solveInit_js st))) p = None \<longleftrightarrow> nodeAt_js (root_js st) p = None) \<and>
         (\<forall>n. nodeAt_js (root_js st) p = Some n \<longrightarrow>
            (\<exists>n'. nodeAt_js (root_js (app_js (solveInit_js st))) p = Some n' \<and>
                  length (children_js n') = length (children_js n) \<and>
                  attrs_js n' =
                    (if type_js (attrs_js n) = TERMINAL then JSON_attrs (attrs_js n)
                     else (JSON_attrs (attrs_js n))\<lparr>calculatedValue_js := Undefined,
                                                    isOptimal_js := None\<rparr>)))"
  using assms
  by (auto simp: solveInit_js_def Let_def JSON_copy_cleared nodeAt_clearValuesSolve_js
        nodeAt_JSON_copy attrs_reset length_children_reset)

theorem solveInit_reset_witness:
  "calculationMode_js solvedA = Auto \<and>
   length (logs_js solvedA) = 3 \<and>
   map_option (\<lambda>n. (type_js (attrs_js n), calculatedValue_js (attrs_js n), isOptimal_js (attrs_js n)))
     (nodeAt_js (root_js solvedA) [0])
     = Some (CHANCE, Number (Num 50), Some True) \<and>
   logs_js (app_js (solveInit_js solvedA)) = [] \<and>
   map_option (\<lambda>n. (type_js (attrs_js n), calculatedValue_js (attrs_js n), isOptimal_js (attrs_js n)))
     (nodeAt_js (root_js (app_js (solveInit_js solvedA))) [0])
     = Some (CHANCE, Undefined, None) \<and>
   map_option (\<lambda>n. (type_js (attrs_js n), calculatedValue_js (attrs_js n)))
     (nodeAt_js (root_js (app_js (solveInit_js solvedA))) [0, 0])
     = Some (TERMINAL, Number (Num 100)) \<and>
   calculationMode_js (editState_js emptiedA) = Edit \<and>
   map_option (\<lambda>n. (type_js (attrs_js n), value_js (attrs_js n)))
     (nodeAt_js (root_js (editState_js emptiedA)) [0, 0]) = Some (TERMINAL, Number NaN) \<and>
   map_option (\<lambda>n. (type_js (attrs_js n), value_js (attrs_js n)))
     (nodeAt_js (root_js (app_js (solveInit_js (editState_js emptiedA)))) [0, 0])
     = Some (TERMINAL, Null)"
proof -
  let ?s = "solvedA"
  have before: "calculationMode_js ?s = Auto" "length (logs_js ?s) = 3"
    "nodeAt_js (root_js ?s) [0]
       = Some (JsNode \<lparr>id_js = ''A'', type_js = CHANCE, label_js = ''A'',
                        value_js = Number (Num 0), probability_js = Undefined,
                        collapsed_js = None, calculatedValue_js = Number (Num 50),
                        isOptimal_js = Some True, notes_js = None\<rparr>
                 (children_js (children_js (root_js ?s) ! 0)))"
    "map_option (\<lambda>n. (type_js (attrs_js n), calculatedValue_js (attrs_js n)))
       (nodeAt_js (root_js ?s) [0, 0]) = Some (TERMINAL, Number (Num 100))"
    by (simp_all add: run_js_defs example_defs rep_defs scenarioA_def mkNode_def)
  have h: "calculationMode_js ?s = Edit \<or> calculationMode_js ?s = Auto"
    using before(1) by simp
  note i0 = solveInit_reset [OF h, of "[0]"]
  note i1 = solveInit_reset [OF h, of "[0, 0]"]
  from i0 have lg: "logs_js (app_js (solveInit_js ?s)) = []" by blast
  from i0 before(3) obtain n' where n': "nodeAt_js (root_js (app_js (solveInit_js ?s))) [0] = Some n'"
     "attrs_js n' = (JSON_attrs \<lparr>id_js = ''A'', type_js = CHANCE, label_js = ''A'',
                        value_js = Number (Num 0), probability_js = Undefined,
                        collapsed_js = None, calculatedValue_js = Number (Num 50),
                        isOptimal_js = Some True, notes_js = None\<rparr>)
                    \<lparr>calculatedValue_js := Undefined, isOptimal_js := None\<rparr>"
    by (auto simp del: nodeAt_js.simps)
  then have a0: "map_option (\<lambda>n. (type_js (attrs_js n), calculatedValue_js (attrs_js n), isOptimal_js (attrs_js n)))
     (nodeAt_js (root_js (app_js (solveInit_js ?s))) [0]) = Some (CHANCE, Undefined, None)"
    by (simp add: JSON_attrs_def del: nodeAt_js.simps)
  from before(4) obtain t where t: "nodeAt_js (root_js ?s) [0, 0] = Some t"
     "type_js (attrs_js t) = TERMINAL" "calculatedValue_js (attrs_js t) = Number (Num 100)"
    by (auto simp del: nodeAt_js.simps)
  from i1 t obtain t' where t': "nodeAt_js (root_js (app_js (solveInit_js ?s))) [0, 0] = Some t'"
     "attrs_js t' = JSON_attrs (attrs_js t)"
    by (auto simp del: nodeAt_js.simps)
  with t have a1: "map_option (\<lambda>n. (type_js (attrs_js n), calculatedValue_js (attrs_js n)))
     (nodeAt_js (root_js (app_js (solveInit_js ?s))) [0, 0]) = Some (TERMINAL, Number (Num 100))"
    by (simp add: JSON_attrs_def JSON_value_def del: nodeAt_js.simps)
  have e: "calculationMode_js (editState_js emptiedA) = Edit"
    "map_option (\<lambda>n. (type_js (attrs_js n), value_js (attrs_js n)))
       (nodeAt_js (root_js (editState_js emptiedA)) [0, 0]) = Some (TERMINAL, Number NaN)"
    by (simp_all add: editState_js_def emptiedA_def mkNode_js_def)
  from e(1) have h2: "calculationMode_js (editState_js emptiedA) = Edit \<or>
      calculationMode_js (editState_js emptiedA) = Auto" by simp
  from e(2) obtain u where u: "nodeAt_js (root_js (editState_js emptiedA)) [0, 0] = Some u"
     "type_js (attrs_js u) = TERMINAL" "value_js (attrs_js u) = Number NaN"
    by (auto simp del: nodeAt_js.simps)
  from solveInit_reset [OF h2, of "[0, 0]"] u obtain u' where
     u': "nodeAt_js (root_js (app_js (solveInit_js (editState_js emptiedA)))) [0, 0] = Some u'"
     "attrs_js u' = JSON_attrs (attrs_js u)"
    by (auto simp del: nodeAt_js.simps)
  with u have a2: "map_option (\<lambda>n. (type_js (attrs_js n), value_js (attrs_js n)))
     (nodeAt_js (root_js (app_js (solveInit_js (editState_js emptiedA)))) [0, 0])
     = Some (TERMINAL, Null)"
    by (simp add: JSON_attrs_def JSON_value_def del: nodeAt_js.simps)
  have b3: "map_option (\<lambda>n. (type_js (attrs_js n), calculatedValue_js (attrs_js n), isOptimal_js (attrs_js n)))
     (nodeAt_js (root_js ?s) [0]) = Some (CHANCE, Number (Num 50), Some True)"
    unfolding before(3) by simp
  from before(1,2) b3 lg a0 a1 e a2 show ?thesis by blast
qed

section \<open>Decision nodes after a full evaluation\<close>


text \<open>
  The number fields have to hold finite numbers as well: after the replay of
  \<open>emptiedLeaf\<close>, whose Terminal node holds NaN, the root has the calculatedValue 0 and its
  child is flagged, but the calculatedValue of the child is \<open>null\<close>.
\<close>

lemma emptiedLeaf_decision:
  "map (\<lambda>n. (type_js (attrs_js n), value_js (attrs_js n), calculatedValue_js (attrs_js n),
               isOptimal_js (attrs_js n)))
     (flattenTreePostOrder_js (root_js (handleSolve_js noFormula_js None False
        (editState_js emptiedLeaf))))
     = [(TERMINAL, Null, Null, Some True), (DECISION, Number (Num 0), Number (Num 0), None)]"
  by (simp add: run_js_defs example_defs emptiedLeaf_def)



section \<open>The replay entered from Stepping, at run time\<close>




end
